theory Spec2Isabelle
  imports Main "HOL-Library.Word"
begin

unbundle bit_operations_syntax

section \<open>Common conventions\<close>

text \<open>
  The kernel is embedded shallowly. C structs are records, pointers to kernel objects
  are natural numbers (addresses), \<open>NULL\<close> is \<open>None\<close>. A C \<open>int\<close> is an
  Isabelle \<open>int\<close> holding its value; where the source can overflow (\<open>++next_pid\<close>,
  the priority difference) the 32-bit wrap-around is written out with \<open>wrap32\<close>.
  A function that can panic returns \<open>fault + 'a\<close>; \<open>Inl\<close> carries the panic.
\<close>

type_synonym u32 = "32 word"

definition wrap32 :: "int \<Rightarrow> int" where
  "wrap32 x = (x + 2 ^ 31) mod 2 ^ 32 - 2 ^ 31"

text \<open>
  \<open>Panic printed fmt\<close>: the kernel called \<open>panic(fmt, ...)\<close> (or failed an
  \<open>assert\<close>) after printing the program counters \<open>printed\<close> on the console.
  \<open>Busy_wait\<close>: the CPU spins on a lock that is held elsewhere; nothing the function
  itself does ends the loop. \<open>Data_abort\<close>: the CPU dereferences \<open>NULL\<close>.
\<close>

datatype fault = Panic (printed: "u32 list") (panic_message: string) | Busy_wait | Data_abort

definition bind_r :: "fault + 'a \<Rightarrow> ('a \<Rightarrow> fault + 'b) \<Rightarrow> fault + 'b" where
  "bind_r m f = (case m of Inl e \<Rightarrow> Inl e | Inr x \<Rightarrow> f x)"

text \<open>
  The error numbers of \<open>errno.h\<close> and the option bits of \<open>sys/wait.h\<close>. Both headers
  are outside the sources at hand; the values below are the customary ones. The theorems
  use of them only that the error numbers are positive and that \<open>WNOHANG\<close> and
  \<open>WUNTRACED\<close> are single bits.
\<close>

definition ECHILD :: int where "ECHILD = 10"
definition EAGAIN :: int where "EAGAIN = 11"
definition ENOMEM :: int where "ENOMEM = 12"
definition EINVAL :: int where "EINVAL = 22"
definition ETIMEDOUT :: int where "ETIMEDOUT = 116"
definition WNOHANG :: int where "WNOHANG = 1"
definition WUNTRACED :: int where "WUNTRACED = 2"

fun is_panic :: "fault + 'a \<Rightarrow> bool" where
  "is_panic (Inl (Panic pr m)) = True"
| "is_panic (Inl Busy_wait) = False"
| "is_panic (Inl Data_abort) = False"
| "is_panic (Inr v) = False"

section \<open>Spinlocks (kernel/nano/spinlock.c)\<close>

text \<open>
  \<open>struct SpinLock\<close>: the lock word, the CPU that holds it, the debug name and the
  saved caller PCs. \<open>irq_save\<close> and \<open>irq_restore\<close> act on the interrupt mask of the
  CPU only; the mask is not part of this model.
\<close>

record SpinLock =
  locked :: int
  lock_cpu :: "nat option"
  lock_name :: string
  pcs :: "u32 list"

text \<open>
  The number of caller PCs a lock records (\<open>NCALLERPCS\<close>). spinlock.h is outside the
  sources at hand; no theorem depends on the value.
\<close>

definition NCALLERPCS :: nat where
  "NCALLERPCS = 10"

definition spin_init :: "SpinLock \<Rightarrow> string \<Rightarrow> SpinLock" where
  "spin_init lock nm = lock\<lparr>locked := 0, lock_cpu := None, lock_name := nm\<rparr>"

text \<open>\<open>spin_holding\<close>: \<open>lock->locked && (lock->cpu == my_cpu())\<close>, for the CPU \<open>c\<close>.\<close>

definition spin_holding :: "SpinLock \<Rightarrow> nat \<Rightarrow> bool" where
  "spin_holding lock c = (locked lock \<noteq> 0 \<and> lock_cpu lock = Some c)"

text \<open>
  \<open>spin_save_caller_pcs\<close> follows the frame pointer chain; \<open>frames\<close> is the list of
  return addresses found along it. The first \<open>NCALLERPCS\<close> are stored, the rest of the
  array is zeroed.
\<close>

definition spin_save_caller_pcs :: "u32 list \<Rightarrow> SpinLock \<Rightarrow> SpinLock" where
  "spin_save_caller_pcs frames lock =
     lock\<lparr>pcs := take NCALLERPCS frames @ replicate (NCALLERPCS - length frames) 0\<rparr>"

text \<open>\<open>spin_print_caller_pcs\<close> prints the saved PCs up to the first zero entry.\<close>

definition spin_print_caller_pcs :: "SpinLock \<Rightarrow> u32 list" where
  "spin_print_caller_pcs lock = takeWhile (\<lambda>pc. pc \<noteq> 0) (take NCALLERPCS (pcs lock))"

text \<open>
  The \<open>ldrex\<close>/\<open>strex\<close> loop of \<open>spin_lock\<close>: read the lock word, try again while it
  is not zero, then store 1. No iteration changes the lock, so on a lock that stays
  taken the loop does not return (\<open>None\<close>).
\<close>

partial_function (option) spin_acquire :: "SpinLock \<Rightarrow> SpinLock option" where
  "spin_acquire lock =
     (if locked lock \<noteq> 0 then spin_acquire lock else Some (lock\<lparr>locked := 1\<rparr>))"

definition spin_lock :: "nat \<Rightarrow> u32 list \<Rightarrow> SpinLock \<Rightarrow> fault + SpinLock" where
  "spin_lock c frames lock =
     (if spin_holding lock c
      then Inl (Panic (spin_print_caller_pcs lock) ''CPU %d is already holding %s'')
      else case spin_acquire lock of
             None \<Rightarrow> Inl Busy_wait
           | Some l \<Rightarrow> Inr (spin_save_caller_pcs frames (l\<lparr>lock_cpu := Some c\<rparr>)))"

definition spin_unlock :: "nat \<Rightarrow> SpinLock \<Rightarrow> fault + SpinLock" where
  "spin_unlock c lock =
     (if \<not> spin_holding lock c
      then Inl (Panic (spin_print_caller_pcs lock) (''CPU %d cannot release %s: held by %d'' @ [CHR 0x0A]))
      else Inr (lock\<lparr>lock_cpu := None, pcs := (pcs lock)[0 := 0], locked := 0\<rparr>))"

subsection \<open>Facts about the spinlock\<close>

lemma spin_acquire_free: "locked lock = 0 \<Longrightarrow> spin_acquire lock = Some (lock\<lparr>locked := 1\<rparr>)"
  by (subst spin_acquire.simps) simp



lemma spin_lock_free:
  "locked lock = 0 \<Longrightarrow>
   spin_lock c frames lock =
     Inr (spin_save_caller_pcs frames (lock\<lparr>locked := 1, lock_cpu := Some c\<rparr>))"
  by (simp add: spin_lock_def spin_holding_def spin_acquire_free)



lemma spin_unlock_held:
  "spin_holding lock c \<Longrightarrow>
   spin_unlock c lock = Inr (lock\<lparr>lock_cpu := None, pcs := (pcs lock)[0 := 0], locked := 0\<rparr>)"
  by (simp add: spin_unlock_def)

text \<open>
  C9. A CPU that already holds the lock panics in \<open>spin_lock\<close>, with the saved caller PCs
  printed first; it neither acquires the lock again nor spins. A CPU that does not hold
  the lock never takes the panic branch of \<open>spin_lock\<close>.
\<close>

theorem spin_lock_recursive_panics:
  "(spin_holding lock c \<longrightarrow>
      spin_lock c frames lock =
        Inl (Panic (spin_print_caller_pcs lock) ''CPU %d is already holding %s'')) \<and>
   (\<not> spin_holding lock c \<longrightarrow> \<not> is_panic (spin_lock c frames lock))"
  by (auto simp: spin_lock_def split: option.splits)

theorem spin_lock_recursive_panics_witness:
  "spin_holding \<lparr>locked = 1, lock_cpu = Some 0, lock_name = ''sched'', pcs = [7, 9, 0, 5]\<rparr> 0 \<and>
   spin_lock 0 [] \<lparr>locked = 1, lock_cpu = Some 0, lock_name = ''sched'', pcs = [7, 9, 0, 5]\<rparr> =
     Inl (Panic [7, 9] ''CPU %d is already holding %s'') \<and>
   \<not> spin_holding \<lparr>locked = 1, lock_cpu = Some 1, lock_name = ''sched'', pcs = []\<rparr> 0 \<and>
   \<not> is_panic (spin_lock 0 [] \<lparr>locked = 1, lock_cpu = Some 1, lock_name = ''sched'', pcs = []\<rparr>)"
  using spin_lock_recursive_panics
    [of "\<lparr>locked = 1, lock_cpu = Some 0, lock_name = ''sched'', pcs = [7, 9, 0, 5]\<rparr>" 0 "[]"]
    spin_lock_recursive_panics
    [of "\<lparr>locked = 1, lock_cpu = Some 1, lock_name = ''sched'', pcs = []\<rparr>" 0 "[]"]
  by (simp add: spin_holding_def spin_print_caller_pcs_def NCALLERPCS_def)


section \<open>Scheduler (sched_init .. task_current)\<close>

text \<open>
  \<open>struct Task\<close>, with the fields the scheduler reads and writes. The list link of a
  task is its membership in one of the lists of the state below. \<open>timer_armed\<close> stands
  for the one-shot \<open>sleep_timer\<close>; \<open>ktimer_start\<close> arms it and \<open>ktimer_stop\<close> disarms it.
\<close>

datatype task_state =
  TASK_STATE_NONE | TASK_STATE_READY | TASK_STATE_RUNNING | TASK_STATE_SLEEPING
| TASK_STATE_SUSPENDED | TASK_STATE_DESTROYED

record Task =
  state :: task_state
  priority :: int
  flags :: int
  sleep_result :: int
  timer_remain :: nat
  timer_armed :: bool

text \<open>
  The reschedule-pending bit of \<open>task->flags\<close> (\<open>TASK_FLAGS_RESCHEDULE\<close>). task.h is
  outside the sources at hand; the theorems hold for any value of the mask.
\<close>

definition TASK_FLAGS_RESCHEDULE :: int where
  "TASK_FLAGS_RESCHEDULE = 1"

text \<open>\<open>struct Cpu\<close>: the task running on the CPU and the depth of ISR nesting.\<close>

record Cpu =
  cpu_task :: "nat option"
  isr_nesting :: int

text \<open>
  The scheduler state: the task structs by address, the run queues \<open>sched_queue[i]\<close>,
  the wait lists by the address of their head, \<open>__sched_lock\<close>, the per-CPU structs, and
  \<open>switches\<close>, the log of the context switches into the scheduler context (the CPU and
  the task it left). List order is queue order: \<open>list_add_back\<close> appends.
\<close>

record Sched =
  tasks :: "nat \<Rightarrow> Task"
  sched_queue :: "int \<Rightarrow> nat list"
  wait_lists :: "nat \<Rightarrow> nat list"
  sched_lock :: SpinLock
  cpus :: "nat \<Rightarrow> Cpu"
  switches :: "(nat \<times> nat option) list"

definition assert_sched_locked :: "nat \<Rightarrow> Sched \<Rightarrow> fault + Sched" where
  "assert_sched_locked c s =
     (if spin_holding (sched_lock s) c then Inr s
      else Inl (Panic [] ''assertion failed: spin_holding(&__sched_lock)''))"

definition sched_enqueue :: "nat \<Rightarrow> nat \<Rightarrow> Sched \<Rightarrow> fault + Sched" where
  "sched_enqueue c th s =
     bind_r (assert_sched_locked c s) (\<lambda>s.
       Inr (s\<lparr>tasks := (tasks s)(th := (tasks s th)\<lparr>state := TASK_STATE_READY\<rparr>),
              sched_queue := (sched_queue s)
                (priority (tasks s th) := sched_queue s (priority (tasks s th)) @ [th])\<rparr>))"

text \<open>
  \<open>sched_yield\<close> switches from the running task to the scheduler context of the CPU.
  The function's own effect is the switch, which the log records; the caller goes on
  from here when the scheduler loop switches back to it.
\<close>

definition sched_yield :: "nat \<Rightarrow> Sched \<Rightarrow> fault + Sched" where
  "sched_yield c s =
     bind_r (assert_sched_locked c s) (\<lambda>s.
       Inr (s\<lparr>switches := switches s @ [(c, cpu_task (cpus s c))]\<rparr>))"

text \<open>\<open>task_priority_cmp\<close>: \<open>t2->priority - t1->priority\<close> in 32-bit arithmetic.\<close>

definition task_priority_cmp :: "Task \<Rightarrow> Task \<Rightarrow> int" where
  "task_priority_cmp t1 t2 = wrap32 (priority t2 - priority t1)"

definition sched_may_yield :: "nat \<Rightarrow> nat \<Rightarrow> Sched \<Rightarrow> fault + Sched" where
  "sched_may_yield c candidate s =
     bind_r (assert_sched_locked c s) (\<lambda>s.
       case cpu_task (cpus s c) of
         None \<Rightarrow> Inr s
       | Some my_task \<Rightarrow>
           if task_priority_cmp (tasks s candidate) (tasks s my_task) > 0
           then if isr_nesting (cpus s c) > 0
                then Inr (s\<lparr>tasks := (tasks s)(my_task := (tasks s my_task)
                        \<lparr>flags := flags (tasks s my_task) OR TASK_FLAGS_RESCHEDULE\<rparr>)\<rparr>)
                else bind_r (sched_enqueue c my_task s) (sched_yield c)
           else Inr s)"

text \<open>
  A task that calls \<open>sched_yield\<close> goes on when a scheduler loop switches back to it:
  on the CPU of that loop, and in the state the rest of the system has reached by then.
  For a function that has more to do after a switch, \<open>resume\<close> gives that CPU and that
  state. \<open>after_switch resume c s s'\<close> is where the caller stands after a step from
  \<open>s\<close> to \<open>s'\<close>: where \<open>resume\<close> says when the step has switched (the log of
  switches has grown), and on the same CPU in \<open>s'\<close> otherwise.
\<close>

type_synonym resumption = "Sched \<Rightarrow> nat \<times> Sched"

definition after_switch :: "resumption \<Rightarrow> nat \<Rightarrow> Sched \<Rightarrow> Sched \<Rightarrow> nat \<times> Sched" where
  "after_switch resume c s s' = (if switches s' = switches s then (c, s') else resume s')"

text \<open>
  One turn of the loop of \<open>sched_wakeup_all\<close>: the first task of the list is unlinked,
  given the result, enqueued and offered to \<open>sched_may_yield\<close>, which may switch the
  caller out as its last effect. The loop runs a turn on a non-empty list only.
\<close>

definition wakeup_all_body :: "nat \<Rightarrow> nat \<Rightarrow> int \<Rightarrow> Sched \<Rightarrow> fault + Sched" where
  "wakeup_all_body c task_list result s =
     (case wait_lists s task_list of
        [] \<Rightarrow> Inr s
      | task # rest \<Rightarrow>
          bind_r (sched_enqueue c task
                    (s\<lparr>wait_lists := (wait_lists s)(task_list := rest),
                       tasks := (tasks s)(task := (tasks s task)\<lparr>sleep_result := result\<rparr>)\<rparr>))
            (sched_may_yield c task))"

text \<open>
  The loop of \<open>sched_wakeup_all\<close> tests the list as it is at each turn. After a turn
  that has switched the caller out, the next test is made when the caller runs again, on
  the list as it is then. The rest of the system may link new sleepers for ever, so the
  loop need not end. The result is the CPU the caller is on at the end, and the state.
\<close>

partial_function (option) wakeup_all_loop ::
  "resumption \<Rightarrow> nat \<Rightarrow> nat \<Rightarrow> int \<Rightarrow> Sched \<Rightarrow> (fault + nat \<times> Sched) option" where
  "wakeup_all_loop resume c task_list result s =
     (case wait_lists s task_list of
        [] \<Rightarrow> Some (Inr (c, s))
      | task # rest \<Rightarrow>
          (case wakeup_all_body c task_list result s of
             Inl e \<Rightarrow> Some (Inl e)
           | Inr s' \<Rightarrow>
               (case after_switch resume c s s' of
                  (c', s'') \<Rightarrow> wakeup_all_loop resume c' task_list result s'')))"

declare wakeup_all_loop.simps [code]

definition sched_wakeup_all ::
  "resumption \<Rightarrow> nat \<Rightarrow> nat \<Rightarrow> int \<Rightarrow> Sched \<Rightarrow> (fault + nat \<times> Sched) option" where
  "sched_wakeup_all resume c task_list result s =
     (if \<not> spin_holding (sched_lock s) c then Some (Inl (Panic [] ''sched not locked''))
      else wakeup_all_loop resume c task_list result s)"

text \<open>
  The scan of \<open>sched_wakeup_one\<close>: \<open>highest\<close> is replaced when it is \<open>NULL\<close> or when
  the task at hand compares strictly higher.
\<close>

fun highest_scan :: "(nat \<Rightarrow> Task) \<Rightarrow> nat list \<Rightarrow> nat option \<Rightarrow> nat option" where
  "highest_scan ts [] highest = highest"
| "highest_scan ts (t # rest) highest =
     highest_scan ts rest
       (case highest of
          None \<Rightarrow> Some t
        | Some h \<Rightarrow> if task_priority_cmp (ts t) (ts h) > 0 then Some t else Some h)"

definition sched_wakeup_one :: "nat \<Rightarrow> nat \<Rightarrow> int \<Rightarrow> Sched \<Rightarrow> fault + Sched" where
  "sched_wakeup_one c queue result s =
     (if \<not> spin_holding (sched_lock s) c then Inl (Panic [] ''sched not locked'')
      else case highest_scan (tasks s) (wait_lists s queue) None of
             None \<Rightarrow> Inr s
           | Some highest \<Rightarrow>
               bind_r (sched_enqueue c highest
                         (s\<lparr>wait_lists := (wait_lists s)
                               (queue := remove1 highest (wait_lists s queue)),
                            tasks := (tasks s)
                               (highest := (tasks s highest)\<lparr>sleep_result := result\<rparr>)\<rparr>))
                 (sched_may_yield c highest))"


text \<open>
  \<open>sched_lock\<close> and \<open>sched_unlock\<close> acquire and release the scheduler spinlock, as the
  inline functions of core_private.h do. \<open>fr\<close> is the caller's chain of return
  addresses, which \<open>spin_lock\<close> records.
\<close>

definition sched_lock_acquire :: "nat \<Rightarrow> u32 list \<Rightarrow> Sched \<Rightarrow> fault + Sched" where
  "sched_lock_acquire c fr s =
     bind_r (spin_lock c fr (sched_lock s)) (\<lambda>l. Inr (s\<lparr>sched_lock := l\<rparr>))"

definition sched_unlock :: "nat \<Rightarrow> Sched \<Rightarrow> fault + Sched" where
  "sched_unlock c s =
     bind_r (spin_unlock c (sched_lock s)) (\<lambda>l. Inr (s\<lparr>sched_lock := l\<rparr>))"

text \<open>
  \<open>sched_sleep\<close> runs in two parts, split where \<open>sched_yield\<close> leaves the task.
  \<open>sched_sleep_enter\<close> is the part up to and including the switch: with a caller lock,
  take the scheduler lock and then release the caller's; arm the timer when a timeout is
  given; mark the task sleeping; link it at the back of the queue when there is one;
  switch to the scheduler. \<open>queue\<close> is the address of the list head or \<open>NULL\<close>, \<open>lock\<close>
  the caller's lock (a lock other than \<open>__sched_lock\<close>) or \<open>NULL\<close>. A fault comes with
  the caller's lock and the scheduler state as they are when it happens, so that the
  result tells which of the two locks the CPU holds at that point.
\<close>

definition sched_sleep_enter ::
  "nat \<Rightarrow> u32 list \<Rightarrow> nat option \<Rightarrow> nat \<Rightarrow> SpinLock option \<Rightarrow> Sched
   \<Rightarrow> (fault \<times> SpinLock option \<times> Sched) + (SpinLock option \<times> Sched)" where
  "sched_sleep_enter c fr queue timeout lock s =
     (case (case lock of
              None \<Rightarrow> Inr (None, s)
            | Some l \<Rightarrow>
                (case sched_lock_acquire c fr s of
                   Inl e \<Rightarrow> Inl (e, Some l, s)
                 | Inr s \<Rightarrow>
                     (case spin_unlock c l of
                        Inl e \<Rightarrow> Inl (e, Some l, s)
                      | Inr l \<Rightarrow> Inr (Some l, s)))) of
        Inl f \<Rightarrow> Inl f
      | Inr (lock, s) \<Rightarrow>
          (case assert_sched_locked c s of
             Inl e \<Rightarrow> Inl (e, lock, s)
           | Inr s \<Rightarrow>
               (case cpu_task (cpus s c) of
                  None \<Rightarrow> Inl (Data_abort, lock, s)
                | Some my_task \<Rightarrow>
                    (case sched_yield c
                            (s\<lparr>tasks := (tasks s)(my_task :=
                                  (if timeout \<noteq> 0
                                   then (tasks s my_task)\<lparr>timer_remain := timeout, timer_armed := True\<rparr>
                                   else tasks s my_task)\<lparr>state := TASK_STATE_SLEEPING\<rparr>),
                               wait_lists :=
                                  (case queue of
                                     None \<Rightarrow> wait_lists s
                                   | Some q \<Rightarrow> (wait_lists s)(q := wait_lists s q @ [my_task]))\<rparr>) of
                       Inl e \<Rightarrow> Inl (e, lock, s)
                     | Inr s \<Rightarrow> Inr (lock, s)))))"

text \<open>
  \<open>sched_sleep_return\<close> is the part after the switch back, for the task \<open>my_task\<close>
  that entered: stop the timer when a timeout was given; with a caller lock, release the
  scheduler lock and take the caller's again; return \<open>my_task->sleep_result\<close>.
\<close>

definition sched_sleep_return ::
  "nat \<Rightarrow> u32 list \<Rightarrow> nat \<Rightarrow> nat \<Rightarrow> SpinLock option \<Rightarrow> Sched
   \<Rightarrow> fault + (int \<times> SpinLock option \<times> Sched)" where
  "sched_sleep_return c fr my_task timeout lock s =
     bind_r (case lock of
               None \<Rightarrow>
                 Inr (None,
                      if timeout \<noteq> 0
                      then s\<lparr>tasks := (tasks s)(my_task := (tasks s my_task)\<lparr>timer_armed := False\<rparr>)\<rparr>
                      else s)
             | Some l \<Rightarrow>
                 bind_r (sched_unlock c
                           (if timeout \<noteq> 0
                            then s\<lparr>tasks := (tasks s)(my_task := (tasks s my_task)\<lparr>timer_armed := False\<rparr>)\<rparr>
                            else s)) (\<lambda>s.
                   bind_r (spin_lock c fr l) (\<lambda>l. Inr (Some l, s))))
       (\<lambda>(lock, s). Inr (sleep_result (tasks s my_task), lock, s))"

text \<open>
  \<open>task_sleep_callback\<close>, the timer callback. \<open>task_sleep_callback_body\<close> is what it
  does between \<open>sched_lock\<close> and \<open>sched_unlock\<close>: a task that is still sleeping gets
  \<open>-ETIMEDOUT\<close>, is unlinked from the list it is on, enqueued and offered to
  \<open>sched_may_yield\<close>. The lock is released where the caller stands after that.
\<close>

definition task_sleep_callback_body :: "nat \<Rightarrow> nat \<Rightarrow> Sched \<Rightarrow> fault + Sched" where
  "task_sleep_callback_body c task s =
     (if state (tasks s task) = TASK_STATE_SLEEPING
      then bind_r (sched_enqueue c task
                     (s\<lparr>tasks := (tasks s)(task := (tasks s task)\<lparr>sleep_result := - ETIMEDOUT\<rparr>),
                        wait_lists := (\<lambda>q. remove1 task (wait_lists s q))\<rparr>))
             (sched_may_yield c task)
      else Inr s)"

definition task_sleep_callback ::
  "resumption \<Rightarrow> nat \<Rightarrow> u32 list \<Rightarrow> nat \<Rightarrow> Sched \<Rightarrow> fault + nat \<times> Sched" where
  "task_sleep_callback resume c fr task s =
     bind_r (sched_lock_acquire c fr s) (\<lambda>s.
       bind_r (task_sleep_callback_body c task s) (\<lambda>s'.
         case after_switch resume c s s' of
           (c', s'') \<Rightarrow> bind_r (sched_unlock c' s'') (\<lambda>s. Inr (c', s))))"

text \<open>
  One turn of the loop of \<open>sched_start\<close>, up to the context switch: the first task of
  the first non-empty run queue is dequeued, marked running and made the CPU's task;
  when every queue is empty the CPU releases the scheduler lock, waits for an interrupt
  and takes the lock again. \<open>sched_dequeue_from\<close> searches the queues \<open>i, i + 1, ...\<close>
  below \<open>n\<close>, the number of priorities (\<open>TASK_MAX_PRIORITIES\<close>).
\<close>

fun sched_dequeue_from :: "(int \<Rightarrow> nat list) \<Rightarrow> int \<Rightarrow> nat \<Rightarrow> (nat \<times> (int \<Rightarrow> nat list)) option" where
  "sched_dequeue_from sq i 0 = None"
| "sched_dequeue_from sq i (Suc n) =
     (case sq i of
        [] \<Rightarrow> sched_dequeue_from sq (i + 1) n
      | link # rest \<Rightarrow> Some (link, sq(i := rest)))"

definition sched_dispatch :: "nat \<Rightarrow> u32 list \<Rightarrow> nat \<Rightarrow> Sched \<Rightarrow> fault + Sched" where
  "sched_dispatch c fr nprio s =
     bind_r (assert_sched_locked c s) (\<lambda>s.
       case sched_dequeue_from (sched_queue s) 0 nprio of
         None \<Rightarrow> bind_r (sched_unlock c s) (sched_lock_acquire c fr)
       | Some (next, sq) \<Rightarrow>
           if state (tasks s next) \<noteq> TASK_STATE_READY
           then Inl (Panic [] ''assertion failed: next->state == TASK_STATE_READY'')
           else Inr (s\<lparr>sched_queue := sq,
                       tasks := (tasks s)(next := (tasks s next)\<lparr>state := TASK_STATE_RUNNING\<rparr>),
                       cpus := (cpus s)(c := (cpus s c)\<lparr>cpu_task := Some next\<rparr>)\<rparr>))"

subsection \<open>Facts about the scheduler\<close>

text \<open>
  A priority is an index into \<open>sched_queue\<close>, so it is not negative and fits an
  \<open>int\<close>; on such values the difference in \<open>task_priority_cmp\<close> does not wrap.
\<close>


definition valid_priority :: "Task \<Rightarrow> bool" where
  "valid_priority t = (0 \<le> priority t \<and> priority t < 2 ^ 31)"

lemma wrap32_id: "- (2 ^ 31) \<le> x \<Longrightarrow> x < 2 ^ 31 \<Longrightarrow> wrap32 x = x"
  by (simp add: wrap32_def)

lemma task_priority_cmp_pos:
  "0 \<le> priority t1 \<Longrightarrow> priority t1 < 2 ^ 31 \<Longrightarrow> 0 \<le> priority t2 \<Longrightarrow> priority t2 < 2 ^ 31 \<Longrightarrow>
   (task_priority_cmp t1 t2 > 0) = (priority t1 < priority t2)"
  by (simp add: task_priority_cmp_def wrap32_id)


lemma highest_scan_Some:
  assumes "list_all (\<lambda>t. valid_priority (ts t)) xs" "valid_priority (ts h)"
  shows "\<exists>h'. highest_scan ts xs (Some h) = Some h' \<and>
     ((h' = h \<and> list_all (\<lambda>t. priority (ts h) \<le> priority (ts t)) xs) \<or>
      (\<exists>ys zs. xs = ys @ h' # zs \<and> priority (ts h') < priority (ts h) \<and>
         list_all (\<lambda>t. priority (ts h') < priority (ts t)) ys \<and>
         list_all (\<lambda>t. priority (ts h') \<le> priority (ts t)) zs))"
  using assms
proof (induction xs arbitrary: h)
  case Nil
  then show ?case by simp
next
  case (Cons x xs)
  have vx: "valid_priority (ts x)" and vxs: "list_all (\<lambda>t. valid_priority (ts t)) xs"
    using Cons.prems by simp_all
  show ?case
  proof (cases "priority (ts x) < priority (ts h)")
    case True
    then have step: "highest_scan ts (x # xs) (Some h) = highest_scan ts xs (Some x)"
      using vx Cons.prems(2) by (simp add: task_priority_cmp_pos valid_priority_def)
    from Cons.IH[OF vxs vx] obtain h' where h': "highest_scan ts xs (Some x) = Some h'"
      and alt: "(h' = x \<and> list_all (\<lambda>t. priority (ts x) \<le> priority (ts t)) xs) \<or>
        (\<exists>ys zs. xs = ys @ h' # zs \<and> priority (ts h') < priority (ts x) \<and>
           list_all (\<lambda>t. priority (ts h') < priority (ts t)) ys \<and>
           list_all (\<lambda>t. priority (ts h') \<le> priority (ts t)) zs)"
      by blast
    from alt show ?thesis
    proof
      assume a: "h' = x \<and> list_all (\<lambda>t. priority (ts x) \<le> priority (ts t)) xs"
      then have "x # xs = [] @ h' # xs" "list_all (\<lambda>t. priority (ts h') < priority (ts t)) []"
        "priority (ts h') < priority (ts h)"
        "list_all (\<lambda>t. priority (ts h') \<le> priority (ts t)) xs" using True by simp_all
      with h' step show ?thesis by metis
    next
      assume "\<exists>ys zs. xs = ys @ h' # zs \<and> priority (ts h') < priority (ts x) \<and>
           list_all (\<lambda>t. priority (ts h') < priority (ts t)) ys \<and>
           list_all (\<lambda>t. priority (ts h') \<le> priority (ts t)) zs"
      then obtain ys zs where b: "xs = ys @ h' # zs" "priority (ts h') < priority (ts x)"
           "list_all (\<lambda>t. priority (ts h') < priority (ts t)) ys"
           "list_all (\<lambda>t. priority (ts h') \<le> priority (ts t)) zs" by blast
      then have "x # xs = (x # ys) @ h' # zs" 
        "list_all (\<lambda>t. priority (ts h') < priority (ts t)) (x # ys)"
        "priority (ts h') < priority (ts h)" using True by simp_all
      with b(4) h' step show ?thesis by metis
    qed
  next
    case False
    then have step: "highest_scan ts (x # xs) (Some h) = highest_scan ts xs (Some h)"
      using vx Cons.prems(2) by (simp add: task_priority_cmp_pos valid_priority_def)
    from Cons.IH[OF vxs Cons.prems(2)] obtain h' where h': "highest_scan ts xs (Some h) = Some h'"
      and alt: "(h' = h \<and> list_all (\<lambda>t. priority (ts h) \<le> priority (ts t)) xs) \<or>
        (\<exists>ys zs. xs = ys @ h' # zs \<and> priority (ts h') < priority (ts h) \<and>
           list_all (\<lambda>t. priority (ts h') < priority (ts t)) ys \<and>
           list_all (\<lambda>t. priority (ts h') \<le> priority (ts t)) zs)"
      by blast
    from alt show ?thesis
    proof
      assume a: "h' = h \<and> list_all (\<lambda>t. priority (ts h) \<le> priority (ts t)) xs"
      with False h' step show ?thesis by simp
    next
      assume "\<exists>ys zs. xs = ys @ h' # zs \<and> priority (ts h') < priority (ts h) \<and>
           list_all (\<lambda>t. priority (ts h') < priority (ts t)) ys \<and>
           list_all (\<lambda>t. priority (ts h') \<le> priority (ts t)) zs"
      then obtain ys zs where b: "xs = ys @ h' # zs" "priority (ts h') < priority (ts h)"
           "list_all (\<lambda>t. priority (ts h') < priority (ts t)) ys"
           "list_all (\<lambda>t. priority (ts h') \<le> priority (ts t)) zs" by blast
      then have "x # xs = (x # ys) @ h' # zs" 
        "list_all (\<lambda>t. priority (ts h') < priority (ts t)) (x # ys)"
        using False by simp_all
      with b(2,4) h' step show ?thesis by metis
    qed
  qed
qed

lemma highest_scan_None:
  assumes "list_all (\<lambda>t. valid_priority (ts t)) (x # xs)"
  shows "\<exists>h ys zs. highest_scan ts (x # xs) None = Some h \<and> x # xs = ys @ h # zs \<and>
         list_all (\<lambda>t. priority (ts h) < priority (ts t)) ys \<and>
         list_all (\<lambda>t. priority (ts h) \<le> priority (ts t)) zs"
proof -
  have vx: "valid_priority (ts x)" and vxs: "list_all (\<lambda>t. valid_priority (ts t)) xs"
    using assms by simp_all
  have step: "highest_scan ts (x # xs) None = highest_scan ts xs (Some x)" by simp
  from highest_scan_Some[OF vxs vx] obtain h' where h': "highest_scan ts xs (Some x) = Some h'"
      and alt: "(h' = x \<and> list_all (\<lambda>t. priority (ts x) \<le> priority (ts t)) xs) \<or>
        (\<exists>ys zs. xs = ys @ h' # zs \<and> priority (ts h') < priority (ts x) \<and>
           list_all (\<lambda>t. priority (ts h') < priority (ts t)) ys \<and>
           list_all (\<lambda>t. priority (ts h') \<le> priority (ts t)) zs)"
    by blast
  from alt show ?thesis
  proof
    assume a: "h' = x \<and> list_all (\<lambda>t. priority (ts x) \<le> priority (ts t)) xs"
    then have "x # xs = [] @ h' # xs" "list_all (\<lambda>t. priority (ts h') < priority (ts t)) []" by simp_all
    with a h' step show ?thesis by metis
  next
    assume "\<exists>ys zs. xs = ys @ h' # zs \<and> priority (ts h') < priority (ts x) \<and>
           list_all (\<lambda>t. priority (ts h') < priority (ts t)) ys \<and>
           list_all (\<lambda>t. priority (ts h') \<le> priority (ts t)) zs"
    then obtain ys zs where b: "xs = ys @ h' # zs" "priority (ts h') < priority (ts x)"
           "list_all (\<lambda>t. priority (ts h') < priority (ts t)) ys"
           "list_all (\<lambda>t. priority (ts h') \<le> priority (ts t)) zs" by blast
    then have "x # xs = (x # ys) @ h' # zs" 
        "list_all (\<lambda>t. priority (ts h') < priority (ts t)) (x # ys)" by simp_all
    with b(4) h' step show ?thesis by metis
  qed
qed


lemma bind_r_simps [simp]: "bind_r (Inr x) f = f x" "bind_r (Inl e) f = Inl e"
  by (simp_all add: bind_r_def)

lemma assert_sched_locked_held [simp]:
  "spin_holding (sched_lock s) c \<Longrightarrow> assert_sched_locked c s = Inr s"
  by (simp add: assert_sched_locked_def)

lemma wrap32_zero [simp]: "wrap32 0 = 0"
  by (simp add: wrap32_def)

lemma sched_may_yield_frame:
  assumes "spin_holding (sched_lock s) c"
  shows "\<exists>s'. sched_may_yield c cand s = Inr s' \<and>
           wait_lists s' = wait_lists s \<and> sched_lock s' = sched_lock s \<and> cpus s' = cpus s \<and>
           (\<forall>t. cpu_task (cpus s c) \<noteq> Some t \<longrightarrow> tasks s' t = tasks s t) \<and>
           (\<forall>t. sleep_result (tasks s' t) = sleep_result (tasks s t)) \<and>
           (\<forall>t. priority (tasks s' t) = priority (tasks s t)) \<and>
           (\<forall>t. state (tasks s' t) = state (tasks s t) \<or> state (tasks s' t) = TASK_STATE_READY) \<and>
           (\<forall>p. priority (tasks s cand) = p \<longrightarrow> sched_queue s' p = sched_queue s p)"
  using assms
  by (auto simp: sched_may_yield_def sched_enqueue_def sched_yield_def task_priority_cmp_def
      split: option.splits)

text \<open>
  C6. With the scheduler lock held, \<open>sched_wakeup_one\<close> on a non-empty wait list
  \<open>ys @ h # zs\<close>, where every task of \<open>ys\<close> has a strictly larger priority value than
  \<open>h\<close> and every task of \<open>zs\<close> one at least as large (so \<open>h\<close> is the earliest-enqueued
  among the sleepers of the highest priority), removes exactly \<open>h\<close> from the list, stores
  the result in its sleep-result slot, marks it ready and appends it to the run queue of
  its priority; no other sleeper is touched. On an empty list nothing changes.
\<close>

theorem sched_wakeup_one_highest_fifo:
  assumes "spin_holding (sched_lock s) c"
      and "list_all (\<lambda>t. valid_priority (tasks s t)) (wait_lists s q)"
  shows "(wait_lists s q = [] \<longrightarrow> sched_wakeup_one c q r s = Inr s) \<and>
         (wait_lists s q \<noteq> [] \<longrightarrow>
           (\<exists>h ys zs s'. wait_lists s q = ys @ h # zs \<and>
              list_all (\<lambda>t. priority (tasks s h) < priority (tasks s t)) ys \<and>
              list_all (\<lambda>t. priority (tasks s h) \<le> priority (tasks s t)) zs \<and>
              sched_wakeup_one c q r s = Inr s' \<and>
              wait_lists s' q = ys @ zs \<and>
              (\<forall>q'. q' \<noteq> q \<longrightarrow> wait_lists s' q' = wait_lists s q') \<and>
              sleep_result (tasks s' h) = r \<and>
              state (tasks s' h) = TASK_STATE_READY \<and>
              sched_queue s' (priority (tasks s h)) = sched_queue s (priority (tasks s h)) @ [h] \<and>
              (\<forall>t. t \<noteq> h \<and> cpu_task (cpus s c) \<noteq> Some t \<longrightarrow> tasks s' t = tasks s t)))"
proof (cases "wait_lists s q")
  case Nil
  then show ?thesis using assms(1) by (simp add: sched_wakeup_one_def)
next
  case (Cons x xs)
  from highest_scan_None[of "tasks s" x xs] assms(2) Cons
  obtain h ys zs where scan: "highest_scan (tasks s) (wait_lists s q) None = Some h"
    and split: "wait_lists s q = ys @ h # zs"
    and before: "list_all (\<lambda>t. priority (tasks s h) < priority (tasks s t)) ys"
    and after: "list_all (\<lambda>t. priority (tasks s h) \<le> priority (tasks s t)) zs"
    by auto
  have notin: "h \<notin> set ys" using before by (auto simp: list_all_iff)
  have rem: "remove1 h (wait_lists s q) = ys @ zs"
    using split notin by (simp add: remove1_append)
  define s1 where "s1 = s\<lparr>wait_lists := (wait_lists s)(q := ys @ zs),
      tasks := (tasks s)(h := (tasks s h)\<lparr>sleep_result := r\<rparr>)\<rparr>"
  define s2 where "s2 = s1\<lparr>tasks := (tasks s1)(h := (tasks s1 h)\<lparr>state := TASK_STATE_READY\<rparr>),
      sched_queue := (sched_queue s1)
         (priority (tasks s1 h) := sched_queue s1 (priority (tasks s1 h)) @ [h])\<rparr>"
  have held1: "spin_holding (sched_lock s1) c" using assms(1) by (simp add: s1_def)
  have enq: "sched_enqueue c h s1 = Inr s2"
    using held1 by (simp add: sched_enqueue_def s2_def)
  have held2: "spin_holding (sched_lock s2) c" using held1 by (simp add: s2_def)
  from sched_may_yield_frame[OF held2, of h] obtain s' where
    my: "sched_may_yield c h s2 = Inr s'" and
    wl: "wait_lists s' = wait_lists s2" and
    tk: "\<forall>t. cpu_task (cpus s2 c) \<noteq> Some t \<longrightarrow> tasks s' t = tasks s2 t" and
    sr: "\<forall>t. sleep_result (tasks s' t) = sleep_result (tasks s2 t)" and
    st: "\<forall>t. state (tasks s' t) = state (tasks s2 t) \<or> state (tasks s' t) = TASK_STATE_READY" and
    sq: "\<forall>p. priority (tasks s2 h) = p \<longrightarrow> sched_queue s' p = sched_queue s2 p"
    by blast
  have res: "sched_wakeup_one c q r s = Inr s'"
    using assms(1) scan rem enq my by (simp add: sched_wakeup_one_def s1_def)
  have c1: "wait_lists s' q = ys @ zs" using wl by (simp add: s2_def s1_def)
  have c2: "\<forall>q'. q' \<noteq> q \<longrightarrow> wait_lists s' q' = wait_lists s q'"
    using wl by (simp add: s2_def s1_def)
  have c3: "sleep_result (tasks s' h) = r" using sr by (simp add: s2_def s1_def)
  have c4: "state (tasks s' h) = TASK_STATE_READY"
    using st[rule_format, of h] by (auto simp: s2_def s1_def)
  have c5: "sched_queue s' (priority (tasks s h)) = sched_queue s (priority (tasks s h)) @ [h]"
    using sq by (simp add: s2_def s1_def)
  have c6: "\<forall>t. t \<noteq> h \<and> cpu_task (cpus s c) \<noteq> Some t \<longrightarrow> tasks s' t = tasks s t"
    using tk by (simp add: s2_def s1_def)
  have "\<exists>h ys zs s'. wait_lists s q = ys @ h # zs \<and>
              list_all (\<lambda>t. priority (tasks s h) < priority (tasks s t)) ys \<and>
              list_all (\<lambda>t. priority (tasks s h) \<le> priority (tasks s t)) zs \<and>
              sched_wakeup_one c q r s = Inr s' \<and>
              wait_lists s' q = ys @ zs \<and>
              (\<forall>q'. q' \<noteq> q \<longrightarrow> wait_lists s' q' = wait_lists s q') \<and>
              sleep_result (tasks s' h) = r \<and>
              state (tasks s' h) = TASK_STATE_READY \<and>
              sched_queue s' (priority (tasks s h)) = sched_queue s (priority (tasks s h)) @ [h] \<and>
              (\<forall>t. t \<noteq> h \<and> cpu_task (cpus s c) \<noteq> Some t \<longrightarrow> tasks s' t = tasks s t)"
    by (intro exI[of _ h] exI[of _ ys] exI[of _ zs] exI[of _ s'] conjI
          split before after res c1 c2 c3 c4 c5 c6)
  then show ?thesis using Cons by simp
qed


text \<open>A scheduler state to run the functions on: tasks by priority, one CPU.\<close>

definition held_by :: "nat \<Rightarrow> SpinLock" where
  "held_by c = \<lparr>locked = 1, lock_cpu = Some c, lock_name = ''sched'', pcs = []\<rparr>"

definition mk_task :: "task_state \<Rightarrow> int \<Rightarrow> Task" where
  "mk_task st p =
     \<lparr>state = st, priority = p, flags = 0, sleep_result = 0, timer_remain = 0, timer_armed = False\<rparr>"

text \<open>
  Task 1 runs on CPU 0 with priority \<open>p\<close>, at ISR nesting \<open>n\<close>; tasks 2, 3 and 4 sleep
  on the wait list at address 7 with priorities 2, 1 and 1; CPU 0 holds the scheduler
  lock.
\<close>

definition demo_sched :: "int \<Rightarrow> int \<Rightarrow> Sched" where
  "demo_sched p n =
     \<lparr>tasks = (\<lambda>t. mk_task TASK_STATE_NONE 0)
         (1 := mk_task TASK_STATE_RUNNING p, 2 := mk_task TASK_STATE_SLEEPING 2,
          3 := mk_task TASK_STATE_SLEEPING 1, 4 := mk_task TASK_STATE_SLEEPING 1),
      sched_queue = (\<lambda>i. []),
      wait_lists = (\<lambda>q. [])(7 := [2, 3, 4]),
      sched_lock = held_by 0,
      cpus = (\<lambda>c. \<lparr>cpu_task = None, isr_nesting = 0\<rparr>)(0 := \<lparr>cpu_task = Some 1, isr_nesting = n\<rparr>),
      switches = []\<rparr>"

theorem sched_wakeup_one_highest_fifo_witness:
  "spin_holding (sched_lock (demo_sched 5 0)) 0 \<and>
   list_all (\<lambda>t. valid_priority (tasks (demo_sched 5 0) t)) (wait_lists (demo_sched 5 0) 7) \<and>
   wait_lists (demo_sched 5 0) 7 = [2, 3, 4] \<and>
   (case sched_wakeup_one 0 7 (- 5) (demo_sched 5 0) of
      Inl e \<Rightarrow> False
    | Inr s' \<Rightarrow> wait_lists s' 7 = [2, 4] \<and> sleep_result (tasks s' 3) = - 5 \<and>
        state (tasks s' 3) = TASK_STATE_READY \<and> sched_queue s' 1 = [3] \<and>
        tasks s' 2 = tasks (demo_sched 5 0) 2 \<and> tasks s' 4 = tasks (demo_sched 5 0) 4)"
  using sched_wakeup_one_highest_fifo [of "demo_sched 5 0" 0 7 "- 5"]
  by (simp add: demo_sched_def held_by_def mk_task_def spin_holding_def valid_priority_def
      sched_wakeup_one_def sched_enqueue_def sched_may_yield_def sched_yield_def
      task_priority_cmp_def wrap32_def assert_sched_locked_def)


text \<open>
  C5, as the code has it. \<open>sched_may_yield\<close>, called with the scheduler lock held while
  task \<open>m\<close> runs on the CPU: when the priority of \<open>m\<close> is strictly lower than the
  candidate's (its priority value is larger), \<open>m\<close> gets the reschedule-pending flag if
  the CPU is nested in an ISR (\<open>isr_nesting > 0\<close>), and is otherwise marked ready,
  appended to the run queue of its priority and switched out; when the priority of \<open>m\<close>
  is not strictly lower, nothing changes and the flag is not set.
\<close>

theorem sched_may_yield_delayed:
  assumes "spin_holding (sched_lock s) c"
      and "cpu_task (cpus s c) = Some m"
      and "valid_priority (tasks s m)"
      and "valid_priority (tasks s candidate)"
  shows "sched_may_yield c candidate s =
     (if priority (tasks s candidate) < priority (tasks s m)
      then if isr_nesting (cpus s c) > 0
           then Inr (s\<lparr>tasks := (tasks s)(m := (tasks s m)
                  \<lparr>flags := flags (tasks s m) OR TASK_FLAGS_RESCHEDULE\<rparr>)\<rparr>)
           else Inr (s\<lparr>tasks := (tasks s)(m := (tasks s m)\<lparr>state := TASK_STATE_READY\<rparr>),
                       sched_queue := (sched_queue s)
                         (priority (tasks s m) := sched_queue s (priority (tasks s m)) @ [m]),
                       switches := switches s @ [(c, Some m)]\<rparr>)
      else Inr s)"
proof -
  have cmp: "(task_priority_cmp (tasks s candidate) (tasks s m) > 0) =
             (priority (tasks s candidate) < priority (tasks s m))"
    using assms(3,4) by (simp add: task_priority_cmp_pos valid_priority_def)
  show ?thesis
    using assms(1,2) cmp
    by (simp add: sched_may_yield_def sched_enqueue_def sched_yield_def)
qed

theorem sched_may_yield_delayed_witness:
  "spin_holding (sched_lock (demo_sched 5 0)) 0 \<and>
   cpu_task (cpus (demo_sched 5 0) 0) = Some 1 \<and>
   valid_priority (tasks (demo_sched 5 0) 1) \<and> valid_priority (tasks (demo_sched 5 0) 2) \<and>
   priority (tasks (demo_sched 5 0) 2) < priority (tasks (demo_sched 5 0) 1) \<and>
   sched_may_yield 0 2 (demo_sched 5 0) =
     Inr ((demo_sched 5 0)
       \<lparr>tasks := (tasks (demo_sched 5 0))(1 := mk_task TASK_STATE_READY 5),
        sched_queue := (sched_queue (demo_sched 5 0))(5 := [1]),
        switches := [(0, Some 1)]\<rparr>) \<and>
   sched_may_yield 0 2 (demo_sched 5 1) =
     Inr ((demo_sched 5 1)
       \<lparr>tasks := (tasks (demo_sched 5 1))
          (1 := (mk_task TASK_STATE_RUNNING 5)\<lparr>flags := TASK_FLAGS_RESCHEDULE\<rparr>)\<rparr>) \<and>
   sched_may_yield 0 2 (demo_sched 2 1) = Inr (demo_sched 2 1)"
  using sched_may_yield_delayed [of "demo_sched 5 0" 0 1 2]
    sched_may_yield_delayed [of "demo_sched 5 1" 0 1 2]
    sched_may_yield_delayed [of "demo_sched 2 1" 0 1 2]
  by (simp add: demo_sched_def held_by_def mk_task_def spin_holding_def valid_priority_def
      TASK_FLAGS_RESCHEDULE_def)

text \<open>
  The claim as the specification words it fails: task 1 runs with priority 1, the
  candidate (task 2) has priority 2, so the running task's priority is not lower; the
  claim's "otherwise" branch would set the flag, the code returns with nothing changed.
\<close>

theorem sched_may_yield_otherwise_counterexample:
  "spin_holding (sched_lock (demo_sched 1 0)) 0 \<and>
   cpu_task (cpus (demo_sched 1 0) 0) = Some 1 \<and>
   \<not> (priority (tasks (demo_sched 1 0) 2) < priority (tasks (demo_sched 1 0) 1) \<and>
      isr_nesting (cpus (demo_sched 1 0) 0) = 0) \<and>
   sched_may_yield 0 2 (demo_sched 1 0) = Inr (demo_sched 1 0) \<and>
   flags (tasks (demo_sched 1 0) 1) AND TASK_FLAGS_RESCHEDULE = 0"
  by (simp add: demo_sched_def held_by_def mk_task_def spin_holding_def
      sched_may_yield_def task_priority_cmp_def wrap32_def assert_sched_locked_def
      TASK_FLAGS_RESCHEDULE_def)


section \<open>Mailbox (k_mailbox_*)\<close>


text \<open>
  Memory is an array of bytes by address; a message and the ring buffer of a mailbox lie
  in it. \<open>struct KMailBox\<close>: the lock, the addresses of the heads of the two wait
  lists, the bounds of the ring buffer, the two cursors, the message size, the capacity
  and the number of messages stored.
\<close>

type_synonym memory = "nat \<Rightarrow> 8 word"

record KMailBox =
  mb_lock :: SpinLock
  receivers :: nat
  senders :: nat
  buf_start :: nat
  buf_end :: nat
  read_ptr :: nat
  write_ptr :: nat
  msg_size :: nat
  capacity :: nat
  mb_size :: nat

text \<open>\<open>ROUND_DOWN(x, n)\<close>: the largest multiple of \<open>n\<close> that is not above \<open>x\<close>.\<close>

definition ROUND_DOWN :: "nat \<Rightarrow> nat \<Rightarrow> nat" where
  "ROUND_DOWN x n = x - x mod n"

text \<open>\<open>memmove\<close> copies \<open>n\<close> bytes; the source is read before anything is written.\<close>

definition memmove :: "nat \<Rightarrow> nat \<Rightarrow> nat \<Rightarrow> memory \<Rightarrow> memory" where
  "memmove dst src n mem = (\<lambda>a. if dst \<le> a \<and> a < dst + n then mem (src + (a - dst)) else mem a)"

definition k_mailbox_init_common :: "KMailBox \<Rightarrow> nat \<Rightarrow> nat \<Rightarrow> nat \<Rightarrow> KMailBox" where
  "k_mailbox_init_common mailbox msz start bsz =
     mailbox\<lparr>buf_start := start, buf_end := start + ROUND_DOWN bsz msz,
             read_ptr := start, write_ptr := start, msg_size := msz,
             capacity := bsz div msz, mb_size := 0\<rparr>"

text \<open>
  \<open>_k_sched_wakeup_one\<close> (core_private.h): take the scheduler lock, wake one task,
  release the lock.
\<close>

definition k_sched_wakeup_one :: "nat \<Rightarrow> u32 list \<Rightarrow> nat \<Rightarrow> int \<Rightarrow> Sched \<Rightarrow> fault + Sched" where
  "k_sched_wakeup_one c fr queue result s =
     bind_r (sched_lock_acquire c fr s) (\<lambda>s.
       bind_r (sched_wakeup_one c queue result s) (sched_unlock c))"

text \<open>
  The two functions return the C return value, the mailbox, the memory and the scheduler
  state. \<open>message\<close> is the address of the caller's buffer.
\<close>

definition k_mailbox_try_receive_locked ::
  "nat \<Rightarrow> u32 list \<Rightarrow> KMailBox \<Rightarrow> nat \<Rightarrow> memory \<Rightarrow> Sched
   \<Rightarrow> fault + (int \<times> KMailBox \<times> memory \<times> Sched)" where
  "k_mailbox_try_receive_locked c fr mailbox message mem s =
     (if \<not> spin_holding (mb_lock mailbox) c
      then Inl (Panic [] ''assertion failed: k_spinlock_holding(&mailbox->lock)'')
      else if mb_size mailbox = 0 then Inr (- EAGAIN, mailbox, mem, s)
      else
        let mem' = memmove message (read_ptr mailbox) (msg_size mailbox) mem;
            mailbox' = mailbox\<lparr>read_ptr :=
                (if read_ptr mailbox + msg_size mailbox \<ge> buf_end mailbox
                 then buf_start mailbox else read_ptr mailbox + msg_size mailbox),
              mb_size := mb_size mailbox - 1\<rparr>
        in if mb_size mailbox = capacity mailbox
           then bind_r (k_sched_wakeup_one c fr (senders mailbox) 0 s)
                  (\<lambda>s. Inr (0, mailbox', mem', s))
           else Inr (0, mailbox', mem', s))"

definition k_mailbox_try_send_locked ::
  "nat \<Rightarrow> u32 list \<Rightarrow> KMailBox \<Rightarrow> nat \<Rightarrow> memory \<Rightarrow> Sched
   \<Rightarrow> fault + (int \<times> KMailBox \<times> memory \<times> Sched)" where
  "k_mailbox_try_send_locked c fr mailbox message mem s =
     (if \<not> spin_holding (mb_lock mailbox) c
      then Inl (Panic [] ''assertion failed: k_spinlock_holding(&mailbox->lock)'')
      else if mb_size mailbox = capacity mailbox then Inr (- EAGAIN, mailbox, mem, s)
      else
        let mem' = memmove (write_ptr mailbox) message (msg_size mailbox) mem;
            mailbox' = mailbox\<lparr>write_ptr :=
                (if write_ptr mailbox + msg_size mailbox \<ge> buf_end mailbox
                 then buf_start mailbox else write_ptr mailbox + msg_size mailbox),
              mb_size := mb_size mailbox + 1\<rparr>
        in if mb_size mailbox = 0
           then bind_r (k_sched_wakeup_one c fr (receivers mailbox) 0 s)
                  (\<lambda>s. Inr (0, mailbox', mem', s))
           else Inr (0, mailbox', mem', s))"



text \<open>
  The ring invariant of a mailbox with room for at least one message: the buffer holds
  \<open>capacity\<close> slots of \<open>msg_size\<close> bytes, the read cursor stands on a slot, and the
  write cursor stands \<open>mb_size\<close> slots further, modulo the capacity.
\<close>

definition mailbox_ring_ok :: "KMailBox \<Rightarrow> bool" where
  "mailbox_ring_ok mb =
     (0 < msg_size mb \<and> 0 < capacity mb \<and>
      buf_end mb = buf_start mb + capacity mb * msg_size mb \<and>
      mb_size mb \<le> capacity mb \<and>
      buf_start mb \<le> read_ptr mb \<and>
      (read_ptr mb - buf_start mb) mod msg_size mb = 0 \<and>
      (read_ptr mb - buf_start mb) div msg_size mb < capacity mb \<and>
      write_ptr mb = buf_start mb +
        (((read_ptr mb - buf_start mb) div msg_size mb + mb_size mb) mod capacity mb) * msg_size mb)"

subsection \<open>Facts about the mailbox\<close>

lemma sched_wakeup_one_total:
  assumes "spin_holding (sched_lock s) c"
  shows "\<exists>s'. sched_wakeup_one c q r s = Inr s' \<and> sched_lock s' = sched_lock s"
proof (cases "highest_scan (tasks s) (wait_lists s q) None")
  case None
  then show ?thesis using assms by (simp add: sched_wakeup_one_def)
next
  case (Some h)
  define s2 where "s2 = s\<lparr>wait_lists := (wait_lists s)(q := remove1 h (wait_lists s q)),
      tasks := (tasks s)(h := (tasks s h)\<lparr>sleep_result := r, state := TASK_STATE_READY\<rparr>),
      sched_queue := (sched_queue s)(priority (tasks s h) := sched_queue s (priority (tasks s h)) @ [h])\<rparr>"
  have held2: "spin_holding (sched_lock s2) c" using assms by (simp add: s2_def)
  from sched_may_yield_frame[OF held2, of h] obtain s' where
    "sched_may_yield c h s2 = Inr s'" "sched_lock s' = sched_lock s2" by blast
  then show ?thesis using assms Some
    by (simp add: sched_wakeup_one_def sched_enqueue_def s2_def)
qed

lemma k_sched_wakeup_one_free:
  assumes "locked (sched_lock s) = 0"
  shows "\<exists>s'. k_sched_wakeup_one c fr q r s = Inr s' \<and> locked (sched_lock s') = 0"
proof -
  define s1 where "s1 = s\<lparr>sched_lock := spin_save_caller_pcs fr ((sched_lock s)\<lparr>locked := 1, lock_cpu := Some c\<rparr>)\<rparr>"
  have acq: "sched_lock_acquire c fr s = Inr s1"
    using assms by (simp add: sched_lock_acquire_def spin_lock_free s1_def)
  have held: "spin_holding (sched_lock s1) c"
    by (simp add: s1_def spin_holding_def spin_save_caller_pcs_def)
  from sched_wakeup_one_total[OF held] obtain s2 where
    w: "sched_wakeup_one c q r s1 = Inr s2" and l: "sched_lock s2 = sched_lock s1" by blast
  have "spin_holding (sched_lock s2) c" using held l by simp
  then have "\<exists>s'. sched_unlock c s2 = Inr s' \<and> locked (sched_lock s') = 0"
    by (simp add: sched_unlock_def spin_unlock_held)
  then show ?thesis using acq w by (auto simp: k_sched_wakeup_one_def)
qed

lemma k_sched_wakeup_one_Inr_free:
  assumes "k_sched_wakeup_one c fr q r s = Inr s'"
  shows "locked (sched_lock s') = 0"
  using assms
  by (auto simp: k_sched_wakeup_one_def bind_r_def sched_unlock_def spin_unlock_def
      split: sum.splits if_splits)

lemma mailbox_ring_ok_init:
  assumes "0 < msz" "msz \<le> bsz"
  shows "mailbox_ring_ok (k_mailbox_init_common mb msz start bsz)"
proof -
  have "0 < bsz div msz" using assms by (simp add: div_greater_zero_iff)
  moreover have "bsz - bsz mod msz = bsz div msz * msz"
    by (simp add: minus_mod_eq_div_mult)
  ultimately show ?thesis using assms
    by (simp add: mailbox_ring_ok_def k_mailbox_init_common_def ROUND_DOWN_def)
qed

lemma mailbox_ring_ok_empty:
  assumes "mailbox_ring_ok mb" "mb_size mb = 0"
  shows "read_ptr mb = write_ptr mb"
proof -
  let ?d = "read_ptr mb - buf_start mb"
  have "?d div msg_size mb * msg_size mb = ?d"
    using assms(1) by (simp add: mailbox_ring_ok_def mod_0_imp_dvd)
  then show ?thesis using assms by (simp add: mailbox_ring_ok_def)
qed

lemma ring_step:
  fixes w cap m :: nat
  assumes "w < cap" "0 < m"
  shows "(if cap * m \<le> w * m + m then 0 else w * m + m) = (Suc w mod cap) * m"
proof (cases "Suc w = cap")
  case True
  then have "cap * m = w * m + m" by (metis mult_Suc add.commute)
  then show ?thesis using True by simp
next
  case False
  then have lt: "Suc w < cap" using assms(1) by simp
  then have "w * m + m < cap * m" using assms(2)
    by (metis mult_Suc mult_less_cancel2 add.commute)
  then show ?thesis using lt by simp
qed

lemma mailbox_ring_ok_send:
  assumes "mailbox_ring_ok mb"
      and "k_mailbox_try_send_locked c fr mb src mem s = Inr (0, mb', mem', s')"
  shows "mailbox_ring_ok mb'"
proof -
  let ?ri = "(read_ptr mb - buf_start mb) div msg_size mb"
  let ?w = "(?ri + mb_size mb) mod capacity mb"
  have ok: "0 < msg_size mb" "0 < capacity mb" "mb_size mb \<le> capacity mb"
    "buf_end mb = buf_start mb + capacity mb * msg_size mb"
    "write_ptr mb = buf_start mb + ?w * msg_size mb"
    using assms(1) by (simp_all add: mailbox_ring_ok_def)
  have notfull: "mb_size mb \<noteq> capacity mb"
    using assms(2) by (auto simp: k_mailbox_try_send_locked_def EAGAIN_def split: if_splits)
  have mb': "mb' = mb\<lparr>write_ptr :=
                (if write_ptr mb + msg_size mb \<ge> buf_end mb
                 then buf_start mb else write_ptr mb + msg_size mb),
              mb_size := mb_size mb + 1\<rparr>"
    using assms(2) notfull
    by (auto simp: k_mailbox_try_send_locked_def Let_def bind_r_def split: if_splits sum.splits)
  have w: "?w < capacity mb" using ok(2) by simp
  have "(if buf_end mb \<le> write_ptr mb + msg_size mb then buf_start mb
         else write_ptr mb + msg_size mb) =
        buf_start mb + (if capacity mb * msg_size mb \<le> ?w * msg_size mb + msg_size mb then 0
                        else ?w * msg_size mb + msg_size mb)"
    using ok(4,5) by simp
  also have "\<dots> = buf_start mb + (Suc ?w mod capacity mb) * msg_size mb"
    using ring_step[OF w ok(1)] by simp
  also have "Suc ?w mod capacity mb = (?ri + (mb_size mb + 1)) mod capacity mb"
    by (simp add: mod_Suc_eq)
  finally show ?thesis using assms(1) notfull
    by (simp add: mb' mailbox_ring_ok_def)
qed

lemma mailbox_ring_ok_receive:
  assumes "mailbox_ring_ok mb"
      and "k_mailbox_try_receive_locked c fr mb dst mem s = Inr (0, mb', mem', s')"
  shows "mailbox_ring_ok mb'"
proof -
  let ?d = "read_ptr mb - buf_start mb"
  let ?ri = "?d div msg_size mb"
  have ok: "0 < msg_size mb" "0 < capacity mb" "mb_size mb \<le> capacity mb"
    "buf_end mb = buf_start mb + capacity mb * msg_size mb"
    "buf_start mb \<le> read_ptr mb" "?d mod msg_size mb = 0" "?ri < capacity mb"
    "write_ptr mb = buf_start mb + ((?ri + mb_size mb) mod capacity mb) * msg_size mb"
    using assms(1) by (simp_all add: mailbox_ring_ok_def)
  have notempty: "mb_size mb \<noteq> 0"
    using assms(2) by (auto simp: k_mailbox_try_receive_locked_def EAGAIN_def split: if_splits)
  have mb': "mb' = mb\<lparr>read_ptr :=
                (if read_ptr mb + msg_size mb \<ge> buf_end mb
                 then buf_start mb else read_ptr mb + msg_size mb),
              mb_size := mb_size mb - 1\<rparr>"
    using assms(2) notempty
    by (auto simp: k_mailbox_try_receive_locked_def Let_def bind_r_def split: if_splits sum.splits)
  have rd: "read_ptr mb = buf_start mb + ?ri * msg_size mb"
    using ok(5,6) by (simp add: mod_0_imp_dvd)
  have "(if buf_end mb \<le> read_ptr mb + msg_size mb then buf_start mb
         else read_ptr mb + msg_size mb) =
        buf_start mb + (if capacity mb * msg_size mb \<le> ?ri * msg_size mb + msg_size mb then 0
                        else ?ri * msg_size mb + msg_size mb)"
    using ok(4) rd by auto
  also have "\<dots> = buf_start mb + (Suc ?ri mod capacity mb) * msg_size mb"
    using ring_step[OF ok(7) ok(1)] by simp
  finally have rp: "read_ptr mb' = buf_start mb + (Suc ?ri mod capacity mb) * msg_size mb"
    by (simp add: mb')
  have idx: "(read_ptr mb' - buf_start mb) div msg_size mb = Suc ?ri mod capacity mb"
    using rp ok(1) by simp
  have "(Suc ?ri mod capacity mb + (mb_size mb - 1)) mod capacity mb =
        (Suc ?ri + (mb_size mb - 1)) mod capacity mb"
    by (simp add: mod_add_left_eq)
  also have "\<dots> = (?ri + mb_size mb) mod capacity mb" using notempty by simp
  finally have wr: "write_ptr mb = buf_start mb +
      (((read_ptr mb' - buf_start mb) div msg_size mb + (mb_size mb - 1)) mod capacity mb) * msg_size mb"
    using ok(8) idx by simp
  have lt: "Suc ?ri mod capacity mb < capacity mb" using ok(2) by simp
  show ?thesis
    unfolding mailbox_ring_ok_def
    using ok(1-4) rp idx wr lt by (simp add: mb')
qed

text \<open>
  C7. On a mailbox that holds no message (its cursors coincide, as \<open>mailbox_ring_ok_empty\<close>
  shows for every mailbox kept by the mailbox functions), a \<open>try_send\<close> that succeeds
  followed by a \<open>try_receive\<close> succeeds too, the \<open>msg_size\<close> bytes at the receiver's
  buffer are the bytes the sender passed, and the mailbox holds no message again.
\<close>

theorem mailbox_send_receive_roundtrip:
  assumes "mb_size mb = 0"
      and "read_ptr mb = write_ptr mb"
      and "k_mailbox_try_send_locked c fr mb src mem s = Inr (0, mb1, mem1, s1)"
  shows "\<exists>mb2 mem2 s2.
           k_mailbox_try_receive_locked c fr mb1 dst mem1 s1 = Inr (0, mb2, mem2, s2) \<and>
           (\<forall>i. i < msg_size mb \<longrightarrow> mem2 (dst + i) = mem (src + i)) \<and>
           mb_size mb2 = 0"
proof -
  have held: "spin_holding (mb_lock mb) c"
    using assms(3) by (auto simp: k_mailbox_try_send_locked_def split: if_splits)
  have cap: "capacity mb \<noteq> 0"
    using assms(1,3) held by (auto simp: k_mailbox_try_send_locked_def EAGAIN_def split: if_splits)
  have send: "k_sched_wakeup_one c fr (receivers mb) 0 s = Inr s1 \<and>
        mem1 = memmove (write_ptr mb) src (msg_size mb) mem \<and>
        mb1 = mb\<lparr>write_ptr :=
                (if write_ptr mb + msg_size mb \<ge> buf_end mb
                 then buf_start mb else write_ptr mb + msg_size mb),
              mb_size := 1\<rparr>"
    using assms(1,3) held cap
    by (auto simp: k_mailbox_try_send_locked_def Let_def bind_r_def split: sum.splits)
  then have free1: "locked (sched_lock s1) = 0" using k_sched_wakeup_one_Inr_free by blast
  have held1: "spin_holding (mb_lock mb1) c" using send held by simp
  define mem2 where "mem2 = memmove dst (read_ptr mb1) (msg_size mb1) mem1"
  define mb2 where "mb2 = mb1\<lparr>read_ptr :=
                (if read_ptr mb1 + msg_size mb1 \<ge> buf_end mb1
                 then buf_start mb1 else read_ptr mb1 + msg_size mb1),
              mb_size := 0\<rparr>"
  have bytes: "\<forall>i. i < msg_size mb \<longrightarrow> mem2 (dst + i) = mem (src + i)"
    using send assms(2) by (simp add: mem2_def memmove_def)
  have "\<exists>s2. k_mailbox_try_receive_locked c fr mb1 dst mem1 s1 = Inr (0, mb2, mem2, s2)"
  proof (cases "capacity mb = 1")
    case True
    from k_sched_wakeup_one_free[OF free1, of c fr "senders mb1" 0] obtain s2 where
      "k_sched_wakeup_one c fr (senders mb1) 0 s1 = Inr s2" by blast
    then show ?thesis using held1 send True
      by (simp add: k_mailbox_try_receive_locked_def Let_def mem2_def mb2_def)
  next
    case False
    then show ?thesis using held1 send
      by (simp add: k_mailbox_try_receive_locked_def Let_def mem2_def mb2_def)
  qed
  moreover have "mb_size mb2 = 0" by (simp add: mb2_def)
  ultimately show ?thesis using bytes by blast
qed


text \<open>
  A mailbox of two 4-byte slots at addresses 100 to 107, both cursors on the second
  slot, locked by CPU 0; the receivers' list is the wait list at address 7. The message
  1, 2, 3, 4 lies at address 200.
\<close>

definition demo_mailbox :: KMailBox where
  "demo_mailbox =
     \<lparr>mb_lock = held_by 0, receivers = 7, senders = 9, buf_start = 100, buf_end = 108,
      read_ptr = 104, write_ptr = 104, msg_size = 4, capacity = 2, mb_size = 0\<rparr>"

definition demo_memory :: memory where
  "demo_memory = (\<lambda>a. 0)(200 := 1, 201 := 2, 202 := 3, 203 := 4)"

definition demo_sched_unlocked :: Sched where
  "demo_sched_unlocked =
     (demo_sched 5 0)\<lparr>sched_lock := \<lparr>locked = 0, lock_cpu = None, lock_name = ''sched'', pcs = []\<rparr>\<rparr>"

definition demo_sent :: "fault + (int \<times> KMailBox \<times> memory \<times> Sched)" where
  "demo_sent = k_mailbox_try_send_locked 0 [] demo_mailbox 200 demo_memory demo_sched_unlocked"

lemma demo_sent_eq:
  "demo_sent = Inr (0, demo_mailbox\<lparr>write_ptr := 100, mb_size := 1\<rparr>,
      memmove 104 200 4 demo_memory,
      demo_sched_unlocked\<lparr>
        tasks := (tasks demo_sched_unlocked)(3 := (mk_task TASK_STATE_READY 1)\<lparr>sleep_result := 0\<rparr>,
            1 := mk_task TASK_STATE_READY 5),
        sched_queue := (sched_queue demo_sched_unlocked)(1 := [3], 5 := [1]),
        wait_lists := (wait_lists demo_sched_unlocked)(7 := [2, 4]),
        switches := [(0, Some 1)],
        sched_lock := \<lparr>locked = 0, lock_cpu = None, lock_name = ''sched'', pcs = (replicate 10 0)[0 := 0]\<rparr>\<rparr>)"
  by (simp add: demo_sent_def demo_mailbox_def demo_sched_unlocked_def demo_sched_def
      k_mailbox_try_send_locked_def k_sched_wakeup_one_def sched_lock_acquire_def
      spin_lock_free spin_save_caller_pcs_def NCALLERPCS_def sched_wakeup_one_def
      sched_enqueue_def sched_may_yield_def sched_yield_def sched_unlock_def spin_unlock_def
      task_priority_cmp_def wrap32_def assert_sched_locked_def
      held_by_def mk_task_def spin_holding_def Let_def fun_upd_twist)

theorem mailbox_send_receive_roundtrip_witness:
  "mb_size demo_mailbox = 0 \<and> read_ptr demo_mailbox = write_ptr demo_mailbox \<and>
   (case demo_sent of
      Inl e \<Rightarrow> False
    | Inr (r1, mb1, mem1, s1) \<Rightarrow> r1 = 0 \<and>
        (case k_mailbox_try_receive_locked 0 [] mb1 300 mem1 s1 of
           Inl e \<Rightarrow> False
         | Inr (r2, mb2, mem2, s2) \<Rightarrow>
             r2 = 0 \<and> map mem2 [300, 301, 302, 303] = [1, 2, 3, 4] \<and> mb_size mb2 = 0))"
  using mailbox_send_receive_roundtrip
    [of demo_mailbox 0 "[]" 200 demo_memory demo_sched_unlocked
        "fst (snd (projr demo_sent))" "fst (snd (snd (projr demo_sent)))"
        "snd (snd (snd (projr demo_sent)))" 300]
  apply (simp add: demo_sent_def[symmetric])
  apply (simp add: demo_sent_eq)
  apply (simp add: demo_mailbox_def demo_memory_def memmove_def held_by_def
     k_mailbox_try_receive_locked_def spin_holding_def)
  done


section \<open>Processes (kernel/process/process.c)\<close>

text \<open>
  \<open>struct TrapFrame\<close> (trap.h): the registers the process code names, and the other
  saved registers as a list.
\<close>

record TrapFrame =
  r0 :: u32
  r1 :: u32
  r2 :: u32
  sp :: u32
  psr :: u32
  pc :: u32
  other_regs :: "u32 list"

text \<open>
  \<open>struct Process\<close> with its \<open>struct ProcessThread\<close> (one thread per process):
  \<open>thread_pid\<close> is \<open>process->thread->pid\<close>, \<open>tf\<close> the trap frame \<open>*process->thread->tf\<close>.
  \<open>children\<close> is the list of the children, in list order, by the address of their
  descriptors. Files, inodes and address spaces are handles of other subsystems.
\<close>

record Process =
  thread_pid :: int
  tf :: TrapFrame
  parent :: "nat option"
  children :: "nat list"
  zombie :: int
  exit_code :: int
  vm :: "nat option"
  files :: "nat option list"
  cwd :: "nat option"
  ruid :: int
  euid :: int
  rgid :: int
  egid :: int
  cmask :: int

text \<open>The calls into other subsystems, logged in the order they are made.\<close>

datatype kevent =
    Kmem_free_process nat
  | Kmem_free_thread nat
  | Page_free_one nat
  | Vm_space_destroy "nat option"
  | File_close nat
  | File_dup nat
  | Fs_inode_put "nat option"
  | Fs_inode_duplicate "nat option"
  | Wchan_wakeup_all nat
  | Wchan_sleep nat
  | Task_resume nat
  | Task_destroy

text \<open>
  The state of the process module: the descriptors by address, the static \<open>next_pid\<close>,
  the processes whose thread is linked into the PID hash, the two spinlocks,
  \<open>init_process\<close>, the words of memory that a \<open>stat_loc\<close> can point to, and the log.
\<close>

record PState =
  procs :: "nat \<Rightarrow> Process"
  next_pid :: int
  pid_hash :: "nat set"
  pid_hash_lock :: SpinLock
  process_lock :: SpinLock
  init_process :: "nat option"
  umem :: "nat \<Rightarrow> int"
  events :: "kevent list"

text \<open>
  What the allocators and the virtual memory layer answer during one call: the objects
  \<open>kmem_alloc\<close> and \<open>page_alloc_one\<close> hand out (\<open>None\<close> for \<open>NULL\<close>), the return value
  of \<open>task_create\<close>, the results of \<open>vm_space_create\<close> and \<open>vm_space_clone\<close>, the
  value of \<open>(int) vm_space_alloc(vm, va, n, flags)\<close> by \<open>va\<close> and \<open>n\<close>, the return value
  of \<open>vm_space_copy_out\<close> by destination and length, and the layout constants
  \<open>VIRT_USTACK_TOP\<close> and \<open>USTACK_SIZE\<close>.
\<close>

record Env =
  new_process :: "nat option"
  new_thread :: "nat option"
  new_page :: "nat option"
  task_create_result :: int
  vm_space_create_result :: "nat option"
  vm_space_clone_result :: "nat option"
  vm_space_alloc :: "nat \<Rightarrow> nat \<Rightarrow> int"
  vm_space_copy_out :: "nat \<Rightarrow> nat \<Rightarrow> int"
  VIRT_USTACK_TOP :: nat
  USTACK_SIZE :: nat

text \<open>
  The width of the open-file table (\<open>OPEN_MAX\<close>). limits.h is outside the sources at
  hand; no theorem depends on the value.
\<close>

definition OPEN_MAX :: nat where
  "OPEN_MAX = 20"

text \<open>An assignment to fields of the descriptor at address \<open>p\<close>.\<close>

definition set_proc :: "nat \<Rightarrow> (Process \<Rightarrow> Process) \<Rightarrow> (nat \<Rightarrow> Process) \<Rightarrow> (nat \<Rightarrow> Process)" where
  "set_proc p f ps = ps(p := f (ps p))"

definition log_event :: "kevent \<Rightarrow> PState \<Rightarrow> PState" where
  "log_event e s = s\<lparr>events := events s @ [e]\<rparr>"

definition process_free :: "nat \<Rightarrow> PState \<Rightarrow> PState" where
  "process_free process s = log_event (Kmem_free_process process) s"

text \<open>
  \<open>process_alloc\<close> returns the new process or \<open>NULL\<close>. The descriptor that
  \<open>kmem_alloc\<close> hands out keeps what it held in the fields that are not assigned.
\<close>

definition process_alloc :: "nat \<Rightarrow> u32 list \<Rightarrow> Env \<Rightarrow> PState \<Rightarrow> fault + (nat option \<times> PState)" where
  "process_alloc c fr env s =
     (case new_process env of
        None \<Rightarrow> Inr (None, s)
      | Some process \<Rightarrow>
          (case new_thread env of
             None \<Rightarrow> Inr (None, log_event (Kmem_free_process process) s)
           | Some thread \<Rightarrow>
               (case new_page env of
                  None \<Rightarrow>
                    Inr (None, log_event (Kmem_free_process process)
                                 (log_event (Kmem_free_thread thread) s))
                | Some page \<Rightarrow>
                    if task_create_result env \<noteq> 0
                    then Inr (None, log_event (Kmem_free_process process)
                                      (log_event (Kmem_free_thread thread)
                                         (log_event (Page_free_one page) s)))
                    else
                      bind_r (spin_lock c fr (pid_hash_lock s)) (\<lambda>l.
                        if wrap32 (next_pid s + 1) < 0 then Inl (Panic [] ''pid overflow'')
                        else
                          bind_r (spin_unlock c l) (\<lambda>l.
                            Inr (Some process,
                                 s\<lparr>procs := (procs s)(process := (procs s process)
                                       \<lparr>parent := None, zombie := 0,
                                        thread_pid := wrap32 (next_pid s + 1),
                                        files := replicate OPEN_MAX None\<rparr>),
                                   next_pid := wrap32 (next_pid s + 1),
                                   pid_hash := insert process (pid_hash s),
                                   pid_hash_lock := l\<rparr>))))))"

definition process_setup_vm :: "Env \<Rightarrow> nat \<Rightarrow> PState \<Rightarrow> int \<times> PState" where
  "process_setup_vm env proc s =
     (let s' = s\<lparr>procs := (procs s)(proc := (procs s proc)\<lparr>vm := vm_space_create_result env\<rparr>)\<rparr>
      in if vm_space_create_result env = None then (- ENOMEM, s') else (0, s'))"

text \<open>
  The ELF image as \<open>process_load_binary\<close> reads it: the first bytes of the header, the
  entry point and the program headers.
\<close>

record Elf32_Phdr =
  p_type :: nat
  p_offset :: nat
  p_vaddr :: nat
  p_filesz :: nat
  p_memsz :: nat

record Elf32_Ehdr =
  ident :: "8 word list"
  entry :: u32
  phdrs :: "Elf32_Phdr list"

text \<open>
  The segment type \<open>PT_LOAD\<close> of the ELF format, and the user mode and the F bit of the
  ARM program status register.
\<close>

definition PT_LOAD :: nat where "PT_LOAD = 1"
definition PSR_M_USR :: u32 where "PSR_M_USR = 0x10"
definition PSR_F :: u32 where "PSR_F = 0x40"

text \<open>
  The loop over the program headers: \<open>None\<close> when every header passed, the return
  value otherwise.
\<close>

fun load_segments :: "Env \<Rightarrow> Elf32_Phdr list \<Rightarrow> int option" where
  "load_segments env [] = None"
| "load_segments env (ph # rest) =
     (if p_type ph \<noteq> PT_LOAD then load_segments env rest
      else if p_filesz ph > p_memsz ph then Some (- EINVAL)
      else if vm_space_alloc env (p_vaddr ph) (p_memsz ph) < 0
           then Some (vm_space_alloc env (p_vaddr ph) (p_memsz ph))
      else if int (p_vaddr ph) \<noteq> vm_space_alloc env (p_vaddr ph) (p_memsz ph) then Some (- EINVAL)
      else if vm_space_copy_out env (p_vaddr ph) (p_filesz ph) < 0
           then Some (vm_space_copy_out env (p_vaddr ph) (p_filesz ph))
      else load_segments env rest)"

text \<open>
  In \<open>process_load_binary\<close> the stack is reserved by
  \<open>if ((r = (int) vm_space_alloc(...) < 0)) return r;\<close>: \<open>r\<close> is the value of the
  comparison, so a failed reservation returns 1.
\<close>

definition process_load_binary :: "Env \<Rightarrow> nat \<Rightarrow> Elf32_Ehdr \<Rightarrow> PState \<Rightarrow> int \<times> PState" where
  "process_load_binary env proc binary s =
     (if take 4 (ident binary) \<noteq> [0x7f, 0x45, 0x4c, 0x46] then (- EINVAL, s)
      else case load_segments env (phdrs binary) of
             Some r \<Rightarrow> (r, s)
           | None \<Rightarrow>
               let r = (if vm_space_alloc env (VIRT_USTACK_TOP env - USTACK_SIZE env)
                               (USTACK_SIZE env) < 0 then 1 else 0)
               in if r \<noteq> 0 then (r, s)
               else (0, s\<lparr>procs := (procs s)(proc := (procs s proc)
                           \<lparr>tf := (tf (procs s proc))
                              \<lparr>r0 := 0, r1 := 0, r2 := 0,
                               sp := of_nat (VIRT_USTACK_TOP env),
                               psr := PSR_M_USR OR PSR_F,
                               pc := entry binary\<rparr>\<rparr>)\<rparr>))"

text \<open>
  \<open>process_create\<close> returns the C return value and the process stored through
  \<open>pstore\<close> (when \<open>pstore\<close> is not \<open>NULL\<close>). The first step reads
  \<open>if ((r = process_setup_vm(proc) < 0)) goto fail2;\<close>: \<open>r\<close> is the value of the
  comparison. The second reads \<open>if ((r = process_load_binary(proc, binary)) < 0)\<close>.
\<close>

definition process_create ::
  "nat \<Rightarrow> u32 list \<Rightarrow> Env \<Rightarrow> Elf32_Ehdr \<Rightarrow> bool \<Rightarrow> PState \<Rightarrow> fault + (int \<times> nat option \<times> PState)" where
  "process_create c fr env binary pstore s =
     bind_r (process_alloc c fr env s) (\<lambda>(alloc, s).
       case alloc of
         None \<Rightarrow> Inr (- ENOMEM, None, s)
       | Some proc \<Rightarrow>
           (case process_setup_vm env proc s of (r_vm, s) \<Rightarrow>
              let r = (if r_vm < 0 then 1 else 0)
              in if r \<noteq> 0 then Inr (r, None, process_free proc s)
              else
                (case process_load_binary env proc binary s of (r, s) \<Rightarrow>
                   if r < 0
                   then Inr (r, None,
                             process_free proc (log_event (Vm_space_destroy (vm (procs s proc))) s))
                   else
                     Inr (0, if pstore then Some proc else None,
                          log_event (Task_resume proc)
                            (s\<lparr>procs := (procs s)(proc := (procs s proc)
                                  \<lparr>ruid := 0, euid := 0, rgid := 0, egid := 0, cmask := 0\<rparr>)\<rparr>)))))"


text \<open>
  The loop of \<open>process_destroy\<close> that moves the children to the init process: while the
  list of children is not empty, its first element is unlinked, given \<open>init_process\<close>
  as parent and linked at the back of the children of \<open>init_process\<close>. The result is
  \<open>has_zombies\<close> and the descriptors; \<open>None\<close> when the loop does not end.
\<close>

partial_function (option) reparent_children ::
  "nat \<Rightarrow> nat \<Rightarrow> int \<Rightarrow> (nat \<Rightarrow> Process) \<Rightarrow> (int \<times> (nat \<Rightarrow> Process)) option" where
  "reparent_children current ini has_zombies ps =
     (case children (ps current) of
        [] \<Rightarrow> Some (has_zombies, ps)
      | l # rest \<Rightarrow>
          reparent_children current ini
            (if zombie (ps l) \<noteq> 0 then 1 else has_zombies)
            (let ps1 = ps(current := (ps current)\<lparr>children := rest\<rparr>);
                 ps2 = ps1(l := (ps1 l)\<lparr>parent := Some ini\<rparr>)
             in ps2(ini := (ps2 ini)\<lparr>children := children (ps2 ini) @ [l]\<rparr>)))"

text \<open>
  \<open>process_destroy(status)\<close>, called by the process \<open>current\<close>. \<open>task_destroy\<close>, the last
  call, does not return to the caller; the state is the one it is called in.
\<close>

definition process_destroy :: "nat \<Rightarrow> u32 list \<Rightarrow> nat \<Rightarrow> int \<Rightarrow> PState \<Rightarrow> (fault + PState) option" where
  "process_destroy c fr current status s =
     (case spin_lock c fr (pid_hash_lock s) of
        Inl e \<Rightarrow> Some (Inl e)
      | Inr l \<Rightarrow>
     (case spin_unlock c l of
        Inl e \<Rightarrow> Some (Inl e)
      | Inr l \<Rightarrow>
          let s = s\<lparr>pid_hash := pid_hash s - {current}, pid_hash_lock := l,
                    events := events s @ [Vm_space_destroy (vm (procs s current))]
                      @ map File_close (List.map_filter id (take OPEN_MAX (files (procs s current))))
                      @ [Fs_inode_put (cwd (procs s current))]\<rparr>
          in
     (case init_process s of
        None \<Rightarrow> Some (Inl (Panic [] ''assertion failed: init_process != NULL''))
      | Some ini \<Rightarrow>
     (case spin_lock c fr (process_lock s) of
        Inl e \<Rightarrow> Some (Inl e)
      | Inr l \<Rightarrow>
     (case reparent_children current ini 0 (procs s) of
        None \<Rightarrow> None
      | Some (has_zombies, ps) \<Rightarrow>
          let s = s\<lparr>procs := ps(current := (ps current)\<lparr>zombie := 1, exit_code := status\<rparr>),
                    events := events s
                      @ (if has_zombies \<noteq> 0 then [Wchan_wakeup_all ini] else [])
                      @ (case parent (ps current) of
                           None \<Rightarrow> []
                         | Some p \<Rightarrow> [Wchan_wakeup_all p])\<rparr>
          in
     (case spin_unlock c l of
        Inl e \<Rightarrow> Some (Inl e)
      | Inr l \<Rightarrow> Some (Inr (log_event Task_destroy (s\<lparr>process_lock := l\<rparr>)))))))))"

text \<open>
  \<open>process_copy\<close>, called by the process \<open>current\<close>; the result is the C return value.
  \<open>file_dup\<close> and \<open>fs_inode_duplicate\<close> return the handle they are given, with one more
  reference. \<open>cur\<close> is the descriptor of \<open>current\<close> as the assignments to \<open>child\<close> read
  it: \<open>child\<close> is a fresh descriptor, and no assignment reads a field that an earlier
  one wrote.
\<close>

definition process_copy :: "nat \<Rightarrow> u32 list \<Rightarrow> Env \<Rightarrow> nat \<Rightarrow> PState \<Rightarrow> fault + (int \<times> PState)" where
  "process_copy c fr env current s =
     bind_r (process_alloc c fr env s) (\<lambda>(alloc, s).
       case alloc of
         None \<Rightarrow> Inr (- ENOMEM, s)
       | Some child \<Rightarrow>
           (case vm_space_clone_result env of
              None \<Rightarrow>
                Inr (- ENOMEM,
                     process_free child
                       (s\<lparr>procs := set_proc child (\<lambda>p. p\<lparr>vm := None\<rparr>) (procs s)\<rparr>))
            | Some v \<Rightarrow>
                let cur = procs s current;
                    ps = set_proc child (\<lambda>p. p\<lparr>vm := Some v\<rparr>) (procs s);
                    ps = set_proc child (\<lambda>p. p\<lparr>parent := Some current\<rparr>) ps;
                    ps = set_proc child (\<lambda>p. p\<lparr>tf := tf cur\<rparr>) ps;
                    ps = set_proc child (\<lambda>p. p\<lparr>tf := (tf p)\<lparr>r0 := 0\<rparr>\<rparr>) ps;
                    ps = set_proc child (\<lambda>p. p\<lparr>files := take OPEN_MAX (files cur)\<rparr>) ps;
                    ps = set_proc child (\<lambda>p. p\<lparr>ruid := ruid cur\<rparr>) ps;
                    ps = set_proc child (\<lambda>p. p\<lparr>euid := euid cur\<rparr>) ps;
                    ps = set_proc child (\<lambda>p. p\<lparr>rgid := rgid cur\<rparr>) ps;
                    ps = set_proc child (\<lambda>p. p\<lparr>egid := egid cur\<rparr>) ps;
                    ps = set_proc child (\<lambda>p. p\<lparr>cmask := cmask cur\<rparr>) ps;
                    ps = set_proc child (\<lambda>p. p\<lparr>cwd := cwd cur\<rparr>) ps;
                    s = s\<lparr>procs := ps,
                          events := events s
                            @ map File_dup (List.map_filter id (take OPEN_MAX (files cur)))
                            @ [Fs_inode_duplicate (cwd cur)]\<rparr>
                in
                  bind_r (spin_lock c fr (process_lock s)) (\<lambda>l.
                    bind_r (spin_unlock c l) (\<lambda>l.
                      let s = s\<lparr>procs := set_proc current
                                   (\<lambda>p. p\<lparr>children := children p @ [child]\<rparr>) (procs s),
                                process_lock := l\<rparr>;
                          s = log_event (Task_resume child) s
                      in Inr (thread_pid (procs s child), s)))))"

text \<open>
  \<open>arch_process_copy\<close> (arch_process.c) does the two trap frame assignments of
  \<open>process_copy\<close> on their own.
\<close>

definition arch_process_copy :: "nat \<Rightarrow> nat \<Rightarrow> (nat \<Rightarrow> Process) \<Rightarrow> int \<times> (nat \<Rightarrow> Process)" where
  "arch_process_copy parent_p child ps =
     (let ps = set_proc child (\<lambda>p. p\<lparr>tf := tf (ps parent_p)\<rparr>) ps;
          ps = set_proc child (\<lambda>p. p\<lparr>tf := (tf p)\<lparr>r0 := 0\<rparr>\<rparr>) ps
      in (0, ps))"

text \<open>
  The scan of the children in \<open>process_wait\<close>. \<open>continue\<close> goes on with the rest of
  the list, \<open>break\<close> leaves the scan with \<open>found\<close> as it is. A zombie that matches ends
  the scan (\<open>Reap p found\<close>, with \<open>found\<close> its PID).
\<close>

datatype scan_result = Reap nat int | No_zombie int

fun scan_children :: "int \<Rightarrow> (nat \<Rightarrow> Process) \<Rightarrow> nat list \<Rightarrow> int \<Rightarrow> scan_result" where
  "scan_children pid ps [] found = No_zombie found"
| "scan_children pid ps (p # rest) found =
     (if pid > 0 \<and> thread_pid (ps p) \<noteq> pid then scan_children pid ps rest found
      else if pid = 0 then No_zombie found
      else if pid < - 1 then No_zombie found
      else if zombie (ps p) \<noteq> 0 then Reap p (thread_pid (ps p))
      else scan_children pid ps rest (thread_pid (ps p)))"

text \<open>The end of \<open>process_wait\<close> after a \<open>break\<close>: release \<open>process_lock\<close>, return \<open>r\<close>.\<close>

definition wait_unlock_return :: "nat \<Rightarrow> int \<Rightarrow> PState \<Rightarrow> fault + (int \<times> PState)" where
  "wait_unlock_return c r s =
     bind_r (spin_unlock c (process_lock s)) (\<lambda>l. Inr (r, s\<lparr>process_lock := l\<rparr>))"

text \<open>
  The loop of \<open>process_wait\<close>, entered with \<open>process_lock\<close> held. \<open>stat_loc\<close> is the
  address of the status word or \<open>NULL\<close>. \<open>wchan_sleep\<close> releases the lock, sleeps on
  the caller's wait queue and takes the lock again; \<open>sleep\<close> gives the state the caller
  wakes up in. The function is \<open>None\<close> when the loop does not end.
\<close>

partial_function (option) process_wait_loop ::
  "(PState \<Rightarrow> PState) \<Rightarrow> nat \<Rightarrow> nat \<Rightarrow> int \<Rightarrow> nat option \<Rightarrow> int \<Rightarrow> PState
   \<Rightarrow> (fault + (int \<times> PState)) option" where
  "process_wait_loop sleep c current pid stat_loc options s =
     (case scan_children pid (procs s) (children (procs s current)) 0 of
        Reap p found \<Rightarrow>
          (case spin_unlock c (process_lock s) of
             Inl e \<Rightarrow> Some (Inl e)
           | Inr l \<Rightarrow>
               Some (Inr (found,
                 process_free p
                   (s\<lparr>procs := (procs s)(current := (procs s current)
                          \<lparr>children := remove1 p (children (procs s current))\<rparr>),
                      process_lock := l,
                      umem := (case stat_loc of
                                 None \<Rightarrow> umem s
                               | Some a \<Rightarrow> (umem s)(a := exit_code (procs s p)))\<rparr>))))
      | No_zombie found \<Rightarrow>
          if found = 0 then Some (wait_unlock_return c (- ECHILD) s)
          else if options AND WNOHANG \<noteq> 0 then Some (wait_unlock_return c 0 s)
          else process_wait_loop sleep c current pid stat_loc options
                 (sleep (log_event (Wchan_sleep current) s)))"

definition process_wait ::
  "(PState \<Rightarrow> PState) \<Rightarrow> nat \<Rightarrow> u32 list \<Rightarrow> nat \<Rightarrow> int \<Rightarrow> nat option \<Rightarrow> int \<Rightarrow> PState
   \<Rightarrow> (fault + (int \<times> PState)) option" where
  "process_wait sleep c fr current pid stat_loc options s =
     (if options AND NOT (WNOHANG OR WUNTRACED) \<noteq> 0 then Some (Inr (- EINVAL, s))
      else case spin_lock c fr (process_lock s) of
             Inl e \<Rightarrow> Some (Inl e)
           | Inr l \<Rightarrow>
               process_wait_loop sleep c current pid stat_loc options (s\<lparr>process_lock := l\<rparr>))"


subsection \<open>Facts about the process functions\<close>

lemma scan_children_no_zombie:
  assumes "0 < pid"
      and "\<forall>x \<in> set xs. thread_pid (ps x) = pid \<longrightarrow> zombie (ps x) = 0"
  shows "scan_children pid ps xs found =
           No_zombie (if \<exists>x \<in> set xs. thread_pid (ps x) = pid then pid else found)"
  using assms by (induction xs arbitrary: found) auto

lemma scan_children_reap:
  assumes "0 < pid"
      and "\<forall>x \<in> set ys. thread_pid (ps x) \<noteq> pid"
      and "thread_pid (ps p) = pid" "zombie (ps p) \<noteq> 0"
  shows "scan_children pid ps (ys @ p # zs) found = Reap p pid"
  using assms by (induction ys arbitrary: found) auto

lemma distinct_pid_unique:
  assumes "distinct (map f xs)" "x \<in> set xs" "y \<in> set xs" "f x = f y"
  shows "x = y"
  using assms by (meson distinct_map inj_onD)

lemma wait_unlock_return_held:
  "spin_holding (process_lock s) c \<Longrightarrow>
   wait_unlock_return c r s =
     Inr (r, s\<lparr>process_lock := (process_lock s)
            \<lparr>lock_cpu := None, pcs := (pcs (process_lock s))[0 := 0], locked := 0\<rparr>\<rparr>)"
  by (simp add: wait_unlock_return_def spin_unlock_held)


lemma reparent_children_result:
  assumes "current \<noteq> ini"
  shows "\<exists>hz ps'. reparent_children current ini hz0 ps = Some (hz, ps') \<and>
     children (ps' current) = [] \<and>
     children (ps' ini) = children (ps ini) @ children (ps current) \<and>
     (\<forall>x. x \<noteq> current \<and> x \<noteq> ini \<longrightarrow> children (ps' x) = children (ps x)) \<and>
     (\<forall>x. thread_pid (ps' x) = thread_pid (ps x) \<and> zombie (ps' x) = zombie (ps x) \<and>
          exit_code (ps' x) = exit_code (ps x))"
proof (induction xs \<equiv> "children (ps current)" arbitrary: ps hz0)
  case Nil
  then show ?case by (subst reparent_children.simps) simp
next
  case (Cons l rest)
  define ps1 where "ps1 = ps(current := (ps current)\<lparr>children := rest\<rparr>)"
  define ps2 where "ps2 = ps1(l := (ps1 l)\<lparr>parent := Some ini\<rparr>)"
  define ps3 where "ps3 = ps2(ini := (ps2 ini)\<lparr>children := children (ps2 ini) @ [l]\<rparr>)"
  have cur3: "children (ps3 current) = rest"
    using assms by (simp add: ps3_def ps2_def ps1_def)
  have ini3: "children (ps3 ini) = children (ps ini) @ [l]"
    using assms by (simp add: ps3_def ps2_def ps1_def)
  have oth3: "\<forall>x. x \<noteq> current \<and> x \<noteq> ini \<longrightarrow> children (ps3 x) = children (ps x)"
    by (simp add: ps3_def ps2_def ps1_def)
  have same3: "\<forall>x. thread_pid (ps3 x) = thread_pid (ps x) \<and> zombie (ps3 x) = zombie (ps x) \<and>
          exit_code (ps3 x) = exit_code (ps x)"
    by (simp add: ps3_def ps2_def ps1_def)
  have step: "reparent_children current ini hz0 ps =
      reparent_children current ini (if zombie (ps l) \<noteq> 0 then 1 else hz0) ps3"
    using Cons.hyps(2)[symmetric]
    by (subst reparent_children.simps) (simp add: ps3_def ps2_def ps1_def Let_def)
  from Cons.hyps(1)[of ps3 "if zombie (ps l) \<noteq> 0 then 1 else hz0"] cur3
  obtain hz ps' where r: "reparent_children current ini (if zombie (ps l) \<noteq> 0 then 1 else hz0) ps3 = Some (hz, ps')"
    and a: "children (ps' current) = []"
    and b: "children (ps' ini) = children (ps3 ini) @ children (ps3 current)"
    and c: "\<forall>x. x \<noteq> current \<and> x \<noteq> ini \<longrightarrow> children (ps' x) = children (ps3 x)"
    and d: "\<forall>x. thread_pid (ps' x) = thread_pid (ps3 x) \<and> zombie (ps' x) = zombie (ps3 x) \<and>
          exit_code (ps' x) = exit_code (ps3 x)"
    by auto
  have "children (ps' ini) = children (ps ini) @ children (ps current)"
    using b ini3 cur3 Cons.hyps(2)[symmetric] by simp
  then show ?case using step r a c d oth3 same3 by auto
qed

lemma process_destroy_result:
  assumes "init_process s = Some ini" "current \<noteq> ini"
      and "locked (pid_hash_lock s) = 0" "locked (process_lock s) = 0"
  shows "\<exists>s1. process_destroy c fr current status s = Some (Inr s1) \<and>
     locked (process_lock s1) = 0 \<and> umem s1 = umem s \<and>
     zombie (procs s1 current) = 1 \<and> exit_code (procs s1 current) = status \<and>
     (\<forall>x. thread_pid (procs s1 x) = thread_pid (procs s x)) \<and>
     (\<forall>x. x \<noteq> current \<longrightarrow> zombie (procs s1 x) = zombie (procs s x)) \<and>
     (\<forall>x. x \<noteq> current \<longrightarrow> children (procs s1 x) =
          children (procs s x) @ (if x = ini then children (procs s current) else []))"
proof -
  from reparent_children_result[OF assms(2), of 0 "procs s"]
  obtain hz ps' where r: "reparent_children current ini 0 (procs s) = Some (hz, ps')"
    and b: "children (ps' ini) = children (procs s ini) @ children (procs s current)"
    and c: "\<forall>x. x \<noteq> current \<and> x \<noteq> ini \<longrightarrow> children (ps' x) = children (procs s x)"
    and d: "\<forall>x. thread_pid (ps' x) = thread_pid (procs s x) \<and> zombie (ps' x) = zombie (procs s x) \<and>
          exit_code (ps' x) = exit_code (procs s x)"
    by blast
  have l1: "spin_lock c fr (pid_hash_lock s) =
      Inr (spin_save_caller_pcs fr ((pid_hash_lock s)\<lparr>locked := 1, lock_cpu := Some c\<rparr>))"
    using assms(3) by (rule spin_lock_free)
  have u1: "\<exists>l. spin_unlock c (spin_save_caller_pcs fr ((pid_hash_lock s)\<lparr>locked := 1, lock_cpu := Some c\<rparr>)) = Inr l"
    by (simp add: spin_unlock_def spin_holding_def spin_save_caller_pcs_def)
  have l2: "spin_lock c fr (process_lock s) =
      Inr (spin_save_caller_pcs fr ((process_lock s)\<lparr>locked := 1, lock_cpu := Some c\<rparr>))"
    using assms(4) by (rule spin_lock_free)
  have u2: "\<exists>l. spin_unlock c (spin_save_caller_pcs fr ((process_lock s)\<lparr>locked := 1, lock_cpu := Some c\<rparr>)) = Inr l \<and> locked l = 0"
    by (simp add: spin_unlock_def spin_holding_def spin_save_caller_pcs_def)
  from u1 obtain la where la: "spin_unlock c (spin_save_caller_pcs fr ((pid_hash_lock s)\<lparr>locked := 1, lock_cpu := Some c\<rparr>)) = Inr la" by blast
  from u2 obtain lb where lb: "spin_unlock c (spin_save_caller_pcs fr ((process_lock s)\<lparr>locked := 1, lock_cpu := Some c\<rparr>)) = Inr lb" "locked lb = 0" by blast
  show ?thesis
    using assms(1) l1 la l2 lb r b c d
    by (auto simp: process_destroy_def Let_def log_event_def)
qed

lemma distinct_map_split:
  assumes "distinct (map f xs)" "p \<in> set xs"
  shows "\<exists>ys zs. xs = ys @ p # zs \<and> (\<forall>x \<in> set ys \<union> set zs. f x \<noteq> f p)"
proof -
  from split_list[OF assms(2)] obtain ys zs where xs: "xs = ys @ p # zs" by blast
  have "\<forall>x \<in> set ys \<union> set zs. f x \<noteq> f p"
    using assms(1) unfolding xs by (auto simp: image_iff)
  then show ?thesis using xs by blast
qed

lemma process_wait_locked_entry:
  assumes "locked (process_lock s) = 0" "options AND NOT (WNOHANG OR WUNTRACED) = 0"
  shows "process_wait sleep c fr current pid stat_loc options s =
     process_wait_loop sleep c current pid stat_loc options
       (s\<lparr>process_lock := spin_save_caller_pcs fr ((process_lock s)\<lparr>locked := 1, lock_cpu := Some c\<rparr>)\<rparr>)"
  using assms by (simp add: process_wait_def spin_lock_free)

lemma process_wait_reaps:
  assumes "locked (process_lock s) = 0"
      and "children (procs s current) = ys @ p # zs"
      and "\<forall>x \<in> set ys \<union> set zs. thread_pid (procs s x) \<noteq> pid"
      and "thread_pid (procs s p) = pid" "0 < pid" "zombie (procs s p) \<noteq> 0"
  shows "\<exists>s'. process_wait sleep c fr current pid (Some t) 0 s = Some (Inr (pid, s')) \<and>
     umem s' = (umem s)(t := exit_code (procs s p)) \<and>
     locked (process_lock s') = 0 \<and>
     children (procs s' current) = ys @ zs \<and>
     (\<forall>x. thread_pid (procs s' x) = thread_pid (procs s x)) \<and>
     events s' = events s @ [Kmem_free_process p]"
proof -
  define s1 where "s1 = s\<lparr>process_lock := spin_save_caller_pcs fr ((process_lock s)\<lparr>locked := 1, lock_cpu := Some c\<rparr>)\<rparr>"
  have held: "spin_holding (process_lock s1) c"
    by (simp add: s1_def spin_holding_def spin_save_caller_pcs_def)
  have scan: "scan_children pid (procs s1) (children (procs s1 current)) 0 = Reap p pid"
    using scan_children_reap[of pid ys "procs s" p zs 0] assms(2-6) by (simp add: s1_def)
  have notin: "p \<notin> set ys" using assms(3,4) by auto
  have rem: "remove1 p (ys @ p # zs) = ys @ zs" using notin by (simp add: remove1_append)
  have "process_wait sleep c fr current pid (Some t) 0 s =
      process_wait_loop sleep c current pid (Some t) 0 s1"
    using process_wait_locked_entry[OF assms(1), of 0] by (simp add: s1_def)
  also have "\<dots> = Some (Inr (pid, process_free p
                   (s1\<lparr>procs := (procs s1)(current := (procs s1 current)
                          \<lparr>children := remove1 p (children (procs s1 current))\<rparr>),
                      process_lock := (process_lock s1)
                         \<lparr>lock_cpu := None, pcs := (pcs (process_lock s1))[0 := 0], locked := 0\<rparr>,
                      umem := (umem s1)(t := exit_code (procs s1 p))\<rparr>)))"
    using scan spin_unlock_held[OF held] by (subst process_wait_loop.simps) simp
  finally show ?thesis
    using assms(2) rem by (simp add: s1_def process_free_def log_event_def)
qed

lemma process_wait_no_child:
  assumes "locked (process_lock s) = 0"
      and "\<forall>x \<in> set (children (procs s current)). thread_pid (procs s x) \<noteq> pid"
      and "0 < pid"
  shows "\<exists>s'. process_wait sleep c fr current pid stat_loc 0 s = Some (Inr (- ECHILD, s')) \<and>
     umem s' = umem s \<and> procs s' = procs s \<and> events s' = events s"
proof -
  define s1 where "s1 = s\<lparr>process_lock := spin_save_caller_pcs fr ((process_lock s)\<lparr>locked := 1, lock_cpu := Some c\<rparr>)\<rparr>"
  have held: "spin_holding (process_lock s1) c"
    by (simp add: s1_def spin_holding_def spin_save_caller_pcs_def)
  have scan: "scan_children pid (procs s1) (children (procs s1 current)) 0 = No_zombie 0"
    using scan_children_no_zombie[of pid "children (procs s current)" "procs s" 0] assms(2,3)
    by (simp add: s1_def)
  have "process_wait sleep c fr current pid stat_loc 0 s =
      process_wait_loop sleep c current pid stat_loc 0 s1"
    using process_wait_locked_entry[OF assms(1), of 0] by (simp add: s1_def)
  also have "\<dots> = Some (wait_unlock_return c (- ECHILD) s1)"
    using scan by (subst process_wait_loop.simps) simp
  finally show ?thesis
    using wait_unlock_return_held[OF held] by (simp add: s1_def)
qed


text \<open>
  C10. When \<open>options\<close> has a bit other than \<open>WNOHANG\<close> and \<open>WUNTRACED\<close>,
  \<open>process_wait\<close> returns \<open>-EINVAL\<close> at once and the state is the one it was called
  in: no child is reaped, nothing is written through \<open>stat_loc\<close>, no list of children
  changes.
\<close>

theorem process_wait_bad_options:
  assumes "options AND NOT (WNOHANG OR WUNTRACED) \<noteq> 0"
  shows "process_wait sleep c fr current pid stat_loc options s = Some (Inr (- EINVAL, s))"
  using assms by (simp add: process_wait_def)

text \<open>
  C8. A parent calls \<open>process_wait(pid, stat_loc, WNOHANG)\<close> while a child with that PID
  is in its list of children and is not a zombie (PIDs are positive and no two children
  share one; \<open>process_lock\<close> is free): the call returns 0 and neither the memory nor
  the descriptors change.
\<close>

theorem process_wait_nohang_alive:
  assumes "child \<in> set (children (procs s current))"
      and "thread_pid (procs s child) = pid"
      and "0 < pid"
      and "zombie (procs s child) = 0"
      and "distinct (map (\<lambda>x. thread_pid (procs s x)) (children (procs s current)))"
      and "locked (process_lock s) = 0"
  shows "\<exists>s'. process_wait sleep c fr current pid stat_loc WNOHANG s = Some (Inr (0, s')) \<and>
              umem s' = umem s \<and> procs s' = procs s \<and> events s' = events s"
proof -
  define l where "l = spin_save_caller_pcs fr ((process_lock s)\<lparr>locked := 1, lock_cpu := Some c\<rparr>)"
  define s1 where "s1 = s\<lparr>process_lock := l\<rparr>"
  have lock: "spin_lock c fr (process_lock s) = Inr l"
    using assms(6) by (simp add: spin_lock_free l_def)
  have held: "spin_holding (process_lock s1) c"
    by (simp add: s1_def l_def spin_holding_def spin_save_caller_pcs_def)
  have nz: "\<forall>x \<in> set (children (procs s1 current)). thread_pid (procs s1 x) = pid \<longrightarrow> zombie (procs s1 x) = 0"
  proof (intro ballI impI)
    fix x assume "x \<in> set (children (procs s1 current))" "thread_pid (procs s1 x) = pid"
    then have "x = child"
      using distinct_pid_unique[OF assms(5), of x child] assms(1,2) by (simp add: s1_def)
    then show "zombie (procs s1 x) = 0" using assms(4) by (simp add: s1_def)
  qed
  have ex: "\<exists>x \<in> set (children (procs s1 current)). thread_pid (procs s1 x) = pid"
    using assms(1,2) by (auto simp: s1_def)
  have scan: "scan_children pid (procs s1) (children (procs s1 current)) 0 = No_zombie pid"
    using scan_children_no_zombie[OF assms(3) nz, of 0] ex by simp
  have "process_wait_loop sleep c current pid stat_loc WNOHANG s1 =
          Some (wait_unlock_return c 0 s1)"
    using scan assms(3) by (subst process_wait_loop.simps) (simp add: WNOHANG_def)
  then have "process_wait sleep c fr current pid stat_loc WNOHANG s =
      Some (Inr (0, s1\<lparr>process_lock := (process_lock s1)
            \<lparr>lock_cpu := None, pcs := (pcs (process_lock s1))[0 := 0], locked := 0\<rparr>\<rparr>))"
    using lock wait_unlock_return_held[OF held]
    by (simp add: process_wait_def WNOHANG_def WUNTRACED_def s1_def)
  then show ?thesis by (simp add: s1_def)
qed

text \<open>
  C2. A child (not the init process) calls \<open>process_destroy(status)\<close>; its parent then
  calls \<open>process_wait\<close> with the PID of the child, a status pointer \<open>t\<close> and options 0.
  The call returns the PID and stores \<open>status\<close> at \<open>t\<close>; a second such call returns
  \<open>-ECHILD\<close> and writes nothing. PIDs are positive and no two of the processes on the two
  lists of children share one; the two spinlocks are free when \<open>process_destroy\<close> is
  called.
\<close>

theorem process_destroy_wait_once:
  assumes "init_process s = Some ini" "child \<noteq> ini"
      and "child \<in> set (children (procs s par))"
      and "thread_pid (procs s child) = pid" "0 < pid"
      and "distinct (map (\<lambda>x. thread_pid (procs s x))
                      (children (procs s par) @ children (procs s child)))"
      and "locked (pid_hash_lock s) = 0" "locked (process_lock s) = 0"
  shows "\<exists>s1 s2 s3.
           process_destroy c fr child status s = Some (Inr s1) \<and>
           process_wait sleep c' fr' par pid (Some t) 0 s1 = Some (Inr (pid, s2)) \<and>
           umem s2 t = status \<and>
           process_wait sleep c' fr' par pid (Some t) 0 s2 = Some (Inr (- ECHILD, s3)) \<and>
           umem s3 = umem s2"
proof -
  have neq: "par \<noteq> child"
  proof
    assume "par = child"
    then have "\<not> distinct (children (procs s par) @ children (procs s child))"
      using assms(3) by auto
    then show False using assms(6) distinct_map by blast
  qed
  from process_destroy_result[OF assms(1,2,7,8), of c fr status]
  obtain s1 where d: "process_destroy c fr child status s = Some (Inr s1)"
    and lk1: "locked (process_lock s1) = 0"
    and z1: "zombie (procs s1 child) = 1" and e1: "exit_code (procs s1 child) = status"
    and p1: "\<forall>x. thread_pid (procs s1 x) = thread_pid (procs s x)"
    and c1: "\<forall>x. x \<noteq> child \<longrightarrow> children (procs s1 x) =
          children (procs s x) @ (if x = ini then children (procs s child) else [])"
    by blast
  define L where "L = children (procs s1 par)"
  have L: "L = children (procs s par) @ (if par = ini then children (procs s child) else [])"
    using c1 neq by (simp add: L_def)
  have dL: "distinct (map (\<lambda>x. thread_pid (procs s x)) L)"
    using assms(6) by (cases "par = ini") (simp_all add: L)
  have inL: "child \<in> set L" using assms(3) by (simp add: L)
  from distinct_map_split[OF dL inL] obtain ys zs where
    split: "L = ys @ child # zs" and
    other: "\<forall>x \<in> set ys \<union> set zs. thread_pid (procs s x) \<noteq> thread_pid (procs s child)"
    by blast
  have other1: "\<forall>x \<in> set ys \<union> set zs. thread_pid (procs s1 x) \<noteq> pid"
    using other p1 assms(4) by simp
  have pid1: "thread_pid (procs s1 child) = pid" using p1 assms(4) by simp
  have zn: "zombie (procs s1 child) \<noteq> 0" using z1 by simp
  from process_wait_reaps[OF lk1 split[unfolded L_def] other1 pid1 assms(5) zn, of sleep c' fr' t]
  obtain s2 where w1: "process_wait sleep c' fr' par pid (Some t) 0 s1 = Some (Inr (pid, s2))"
    and m2: "umem s2 = (umem s1)(t := exit_code (procs s1 child))"
    and lk2: "locked (process_lock s2) = 0"
    and ch2: "children (procs s2 par) = ys @ zs"
    and p2: "\<forall>x. thread_pid (procs s2 x) = thread_pid (procs s1 x)"
    by blast
  have none2: "\<forall>x \<in> set (children (procs s2 par)). thread_pid (procs s2 x) \<noteq> pid"
    using ch2 other1 p2 by auto
  from process_wait_no_child[OF lk2 none2 assms(5), of sleep c' fr' "Some t"]
  obtain s3 where w2: "process_wait sleep c' fr' par pid (Some t) 0 s2 = Some (Inr (- ECHILD, s3))"
    and m3: "umem s3 = umem s2"
    by blast
  have "umem s2 t = status" using m2 e1 by simp
  then show ?thesis using d w1 w2 m3 by blast
qed


subsection \<open>Runs on a concrete process table\<close>

text \<open>
  A process table to run the functions on: the init process (address 10, PID 1) with the
  child 20 (PID 2), whose children are 30 (PID 3) and 40 (PID 4); 50 (PID 5) is the child
  of 30. Both spinlocks are free.
\<close>

definition mk_process :: "int \<Rightarrow> nat option \<Rightarrow> nat list \<Rightarrow> Process" where
  "mk_process pid par kids =
     \<lparr>thread_pid = pid,
      tf = \<lparr>r0 = 1, r1 = 2, r2 = 3, sp = 4, psr = 5, pc = 6, other_regs = [7, 8]\<rparr>,
      parent = par, children = kids, zombie = 0, exit_code = 0, vm = None, files = [],
      cwd = None, ruid = 0, euid = 0, rgid = 0, egid = 0, cmask = 0\<rparr>"

definition free_lock :: SpinLock where
  "free_lock = \<lparr>locked = 0, lock_cpu = None, lock_name = ''lock'', pcs = []\<rparr>"

definition demo_pstate :: PState where
  "demo_pstate =
     \<lparr>procs = (\<lambda>a. mk_process 0 None [])
        (10 := mk_process 1 None [20], 20 := mk_process 2 (Some 10) [30, 40],
         30 := mk_process 3 (Some 20) [50], 40 := mk_process 4 (Some 20) [],
         50 := mk_process 5 (Some 30) []),
      next_pid = 5, pid_hash = {10, 20, 30, 40, 50},
      pid_hash_lock = free_lock, process_lock = free_lock,
      init_process = Some 10, umem = (\<lambda>a. 0), events = []\<rparr>"

theorem process_wait_bad_options_witness:
  "(4 :: int) AND NOT (WNOHANG OR WUNTRACED) \<noteq> 0 \<and>
   process_wait id 0 [] 20 3 (Some 100) 4 demo_pstate = Some (Inr (- EINVAL, demo_pstate))"
  using process_wait_bad_options [of 4 id 0 "[]" 20 3 "Some 100" demo_pstate]
  by (simp add: WNOHANG_def WUNTRACED_def)

theorem process_wait_nohang_alive_witness:
  "30 \<in> set (children (procs demo_pstate 20)) \<and>
   thread_pid (procs demo_pstate 30) = 3 \<and> (0 :: int) < 3 \<and>
   zombie (procs demo_pstate 30) = 0 \<and>
   distinct (map (\<lambda>x. thread_pid (procs demo_pstate x)) (children (procs demo_pstate 20))) \<and>
   locked (process_lock demo_pstate) = 0 \<and>
   (case process_wait id 0 [] 20 3 (Some 100) WNOHANG demo_pstate of
      Some (Inr (r, s')) \<Rightarrow>
        r = 0 \<and> umem s' = umem demo_pstate \<and> procs s' = procs demo_pstate
    | _ \<Rightarrow> False)"
  using process_wait_nohang_alive [of 30 demo_pstate 20 3 id 0 "[]" "Some 100"]
  by (auto simp: demo_pstate_def mk_process_def free_lock_def)

theorem process_destroy_wait_once_witness:
  "init_process demo_pstate = Some 10 \<and> (30 :: nat) \<noteq> 10 \<and>
   30 \<in> set (children (procs demo_pstate 20)) \<and>
   thread_pid (procs demo_pstate 30) = 3 \<and> (0 :: int) < 3 \<and>
   distinct (map (\<lambda>x. thread_pid (procs demo_pstate x))
               (children (procs demo_pstate 20) @ children (procs demo_pstate 30))) \<and>
   locked (pid_hash_lock demo_pstate) = 0 \<and> locked (process_lock demo_pstate) = 0 \<and>
   (case process_destroy 1 [] 30 7 demo_pstate of
      Some (Inr s1) \<Rightarrow>
        (case process_wait id 0 [] 20 3 (Some 100) 0 s1 of
           Some (Inr (r, s2)) \<Rightarrow>
             r = 3 \<and> umem s2 100 = 7 \<and>
             (case process_wait id 0 [] 20 3 (Some 100) 0 s2 of
                Some (Inr (r', s3)) \<Rightarrow> r' = - ECHILD \<and> umem s3 = umem s2
              | _ \<Rightarrow> False)
         | _ \<Rightarrow> False)
    | _ \<Rightarrow> False)"
  using process_destroy_wait_once [of demo_pstate 10 30 20 3 1 "[]" 7 id 0 "[]" 100]
  by (auto simp: demo_pstate_def mk_process_def free_lock_def)


lemma wrap32_succ_pos:
  assumes "0 \<le> n" "n < 2 ^ 31" "0 \<le> wrap32 (n + 1)"
  shows "0 < wrap32 (n + 1)"
proof (cases "n + 1 < 2 ^ 31")
  case True
  then show ?thesis using assms(1) by (simp add: wrap32_id)
next
  case False
  then have "n = 2 ^ 31 - 1" using assms(2) by simp
  then have "wrap32 (n + 1) = - (2 ^ 31)" by (simp add: wrap32_def)
  then show ?thesis using assms(3) by simp
qed

lemma process_alloc_Some:
  assumes "process_alloc c fr env s = Inr (Some p, s1)"
  shows "new_process env = Some p \<and> 0 \<le> thread_pid (procs s1 p) \<and>
         thread_pid (procs s1 p) = wrap32 (next_pid s + 1) \<and>
         (\<forall>x. tf (procs s1 x) = tf (procs s x))"
  using assms
  by (auto simp: process_alloc_def bind_r_def log_event_def
      split: option.splits if_splits sum.splits)

lemma set_proc_apply [simp]: "set_proc p f ps q = (if q = p then f (ps q) else ps q)"
  by (simp add: set_proc_def)

text \<open>
  C3. After a \<open>process_copy\<close> that succeeds (it returns a value other than \<open>-ENOMEM\<close>),
  the trap frame of the child is the trap frame of the parent with \<open>r0\<close> set to 0, as
  \<open>arch_process_copy\<close> computes it; the value returned to the parent is the PID of the
  child, which is positive; the child is on the parent's list of children and the
  parent's own trap frame is as it was. \<open>next_pid\<close> is a non-negative \<open>int\<close>, as it is
  from boot on.
\<close>

theorem process_copy_child_trap_frame:
  assumes "process_copy c fr env current s = Inr (ret, s')"
      and "ret \<noteq> - ENOMEM"
      and "0 \<le> next_pid s" "next_pid s < 2 ^ 31"
  shows "\<exists>child. new_process env = Some child \<and>
           ret = thread_pid (procs s' child) \<and> 0 < ret \<and>
           tf (procs s' child) = (tf (procs s current))\<lparr>r0 := 0\<rparr> \<and>
           tf (procs s' child) = tf (snd (arch_process_copy current child (procs s)) child) \<and>
           child \<in> set (children (procs s' current)) \<and>
           (child \<noteq> current \<longrightarrow> tf (procs s' current) = tf (procs s current))"
proof -
  obtain alloc s1 where a: "process_alloc c fr env s = Inr (alloc, s1)"
    using assms(1) by (cases "process_alloc c fr env s") (auto simp: process_copy_def)
  obtain child where ch: "alloc = Some child"
    using assms(1,2) a by (cases alloc) (auto simp: process_copy_def)
  from process_alloc_Some[OF a[unfolded ch]] have
    np: "new_process env = Some child" and
    pid0: "0 \<le> thread_pid (procs s1 child)" and
    pid: "thread_pid (procs s1 child) = wrap32 (next_pid s + 1)" and
    tfs: "\<forall>x. tf (procs s1 x) = tf (procs s x)"
    by simp_all
  have pos: "0 < thread_pid (procs s1 child)"
    using wrap32_succ_pos[OF assms(3,4)] pid0 pid by simp
  obtain v where v: "vm_space_clone_result env = Some v"
    using assms(1,2) a ch by (cases "vm_space_clone_result env") (auto simp: process_copy_def)
  obtain l where l: "spin_lock c fr (process_lock s1) = Inr l"
    using assms(1) a ch v
    by (cases "spin_lock c fr (process_lock s1)") (simp_all add: process_copy_def Let_def)
  obtain l' where l': "spin_unlock c l = Inr l'"
    using assms(1) a ch v l
    by (cases "spin_unlock c l") (simp_all add: process_copy_def Let_def)
  have res: "ret = thread_pid (procs s' child) \<and>
      tf (procs s' child) = (tf (procs s1 current))\<lparr>r0 := 0\<rparr> \<and>
      child \<in> set (children (procs s' current)) \<and>
      thread_pid (procs s' child) = thread_pid (procs s1 child) \<and>
      (child \<noteq> current \<longrightarrow> tf (procs s' current) = tf (procs s1 current))"
    using assms(1) a ch v l l'
    by (auto simp: process_copy_def Let_def log_event_def)
  show ?thesis using res pos np tfs
    by (simp add: arch_process_copy_def Let_def)
qed


text \<open>
  Answers of the allocators and the VM layer in which every request succeeds, and an
  image with one loadable segment.
\<close>

definition demo_env :: Env where
  "demo_env =
     \<lparr>new_process = Some 60, new_thread = Some 61, new_page = Some 62,
      task_create_result = 0, vm_space_create_result = Some 63,
      vm_space_clone_result = Some 64,
      vm_space_alloc = (\<lambda>va n. int va), vm_space_copy_out = (\<lambda>va n. 0),
      VIRT_USTACK_TOP = 0x80000000, USTACK_SIZE = 0x4000\<rparr>"

definition demo_elf :: Elf32_Ehdr where
  "demo_elf =
     \<lparr>ident = [0x7f, 0x45, 0x4c, 0x46, 1, 1, 1],
      entry = 0x8000,
      phdrs = [\<lparr>p_type = PT_LOAD, p_offset = 0x1000, p_vaddr = 0x8000,
                p_filesz = 0x200, p_memsz = 0x300\<rparr>]\<rparr>"

theorem process_copy_child_trap_frame_witness:
  "(0 :: int) \<le> next_pid demo_pstate \<and> next_pid demo_pstate < 2 ^ 31 \<and>
   (case process_copy 0 [] demo_env 20 demo_pstate of
      Inl e \<Rightarrow> False
    | Inr (ret, s') \<Rightarrow>
        ret \<noteq> - ENOMEM \<and> ret = 6 \<and> thread_pid (procs s' 60) = 6 \<and>
        tf (procs s' 60) = \<lparr>r0 = 0, r1 = 2, r2 = 3, sp = 4, psr = 5, pc = 6, other_regs = [7, 8]\<rparr> \<and>
        tf (procs s' 20) = \<lparr>r0 = 1, r1 = 2, r2 = 3, sp = 4, psr = 5, pc = 6, other_regs = [7, 8]\<rparr> \<and>
        children (procs s' 20) = [30, 40, 60])"
  using process_copy_child_trap_frame
    [of 0 "[]" demo_env 20 demo_pstate
        "fst (projr (process_copy 0 [] demo_env 20 demo_pstate))"
        "snd (projr (process_copy 0 [] demo_env 20 demo_pstate))"]
  by (simp add: process_copy_def process_alloc_def demo_env_def demo_pstate_def mk_process_def
      free_lock_def spin_lock_free spin_unlock_def spin_holding_def spin_save_caller_pcs_def
      wrap32_def log_event_def Let_def ENOMEM_def)

text \<open>
  The three failure paths of \<open>process_create\<close>. A failed \<open>process_alloc\<close> gives
  \<open>-ENOMEM\<close>; a negative result of \<open>process_load_binary\<close> is returned as it is, after
  \<open>vm_space_destroy\<close> and \<open>process_free\<close>; a failed \<open>process_setup_vm\<close> frees the
  process and returns 1. A failed reservation of the user stack makes
  \<open>process_load_binary\<close> return 1, which is not negative.
\<close>

lemma process_load_binary_stack_fails:
  assumes "take 4 (ident binary) = [0x7f, 0x45, 0x4c, 0x46]"
      and "load_segments env (phdrs binary) = None"
      and "vm_space_alloc env (VIRT_USTACK_TOP env - USTACK_SIZE env) (USTACK_SIZE env) < 0"
  shows "process_load_binary env proc binary s = (1, s)"
  using assms by (simp add: process_load_binary_def)

lemma process_create_setup_vm_fails:
  assumes "process_alloc c fr env s = Inr (Some proc, s1)"
      and "vm_space_create_result env = None"
  shows "process_create c fr env binary pstore s =
           Inr (1, None, process_free proc
                  (s1\<lparr>procs := (procs s1)(proc := (procs s1 proc)\<lparr>vm := None\<rparr>)\<rparr>))"
  using assms by (simp add: process_create_def process_setup_vm_def Let_def ENOMEM_def)

lemma process_create_alloc_fails:
  assumes "process_alloc c fr env s = Inr (None, s1)"
  shows "process_create c fr env binary pstore s = Inr (- ENOMEM, None, s1)"
  using assms by (simp add: process_create_def)

lemma process_create_load_binary_fails:
  assumes "process_alloc c fr env s = Inr (Some proc, s1)"
      and "process_setup_vm env proc s1 = (r_vm, s2)" "0 \<le> r_vm"
      and "process_load_binary env proc binary s2 = (r, s3)" "r < 0"
  shows "process_create c fr env binary pstore s =
           Inr (r, None,
                process_free proc (log_event (Vm_space_destroy (vm (procs s3 proc))) s3))"
  using assms by (simp add: process_create_def Let_def)

text \<open>
  C1, at the input where it fails: \<open>process_alloc\<close> succeeds and \<open>vm_space_create\<close>
  returns \<open>NULL\<close>. \<open>process_setup_vm\<close> returns \<open>-ENOMEM\<close>; \<open>process_create\<close> frees the
  process and returns 1, the value of the comparison \<open>process_setup_vm(proc) < 0\<close>, not
  \<open>-ENOMEM\<close>.
\<close>

theorem process_create_setup_vm_failure_returns_1:
  "process_setup_vm (demo_env\<lparr>vm_space_create_result := None\<rparr>) 60 demo_pstate =
     (- ENOMEM, demo_pstate\<lparr>procs := (procs demo_pstate)
                   (60 := (procs demo_pstate 60)\<lparr>vm := None\<rparr>)\<rparr>) \<and>
   (case process_create 0 [] (demo_env\<lparr>vm_space_create_result := None\<rparr>) demo_elf True
           demo_pstate of
      Inl e \<Rightarrow> False
    | Inr (r, stored, s') \<Rightarrow>
        r = 1 \<and> r \<noteq> - ENOMEM \<and> stored = None \<and> events s' = [Kmem_free_process 60])"
  by (simp add: process_create_def process_alloc_def process_setup_vm_def process_free_def
      demo_env_def demo_pstate_def mk_process_def
      free_lock_def spin_lock_free spin_unlock_def spin_holding_def spin_save_caller_pcs_def
      wrap32_def log_event_def Let_def ENOMEM_def)


section \<open>The sleep and wake-up round trip\<close>

text \<open>
  The part of the loop of \<open>sched_start\<close> that runs when a task has switched back to the
  scheduler context: the CPU has no task any more, and a destroyed task is freed outside
  the scheduler lock.
\<close>

definition sched_return_to_loop :: "nat \<Rightarrow> u32 list \<Rightarrow> nat \<Rightarrow> Sched \<Rightarrow> fault + Sched" where
  "sched_return_to_loop c fr next_task s =
     (let s = s\<lparr>cpus := (cpus s)(c := (cpus s c)\<lparr>cpu_task := None\<rparr>)\<rparr>
      in if state (tasks s next_task) = TASK_STATE_DESTROYED
         then bind_r (sched_unlock c
                        (s\<lparr>tasks := (tasks s)(next_task :=
                              (tasks s next_task)\<lparr>state := TASK_STATE_NONE\<rparr>)\<rparr>))
                (sched_lock_acquire c fr)
         else Inr s)"

text \<open>
  \<open>sched_isr_enter\<close>, \<open>sched_isr_exit\<close>, \<open>task_cleanup\<close> and \<open>task_create\<close>, which
  other CPUs and tasks may run while a task sleeps. \<open>sched_isr_exit_body\<close> is what
  \<open>sched_isr_exit\<close> does between \<open>sched_lock\<close> and \<open>sched_unlock\<close>; its switch, when
  there is one, is its last effect, and the lock is released where the caller stands after
  that.
\<close>

definition sched_isr_enter :: "nat \<Rightarrow> Sched \<Rightarrow> Sched" where
  "sched_isr_enter c s =
     s\<lparr>cpus := (cpus s)(c := (cpus s c)\<lparr>isr_nesting := wrap32 (isr_nesting (cpus s c) + 1)\<rparr>)\<rparr>"

definition sched_isr_exit_body :: "nat \<Rightarrow> Sched \<Rightarrow> fault + Sched" where
  "sched_isr_exit_body c s =
     (if isr_nesting (cpus s c) \<le> 0 then Inl (Panic [] ''isr_nesting <= 0'')
      else
        let s = s\<lparr>cpus := (cpus s)(c := (cpus s c)
                    \<lparr>isr_nesting := isr_nesting (cpus s c) - 1\<rparr>)\<rparr>
        in if isr_nesting (cpus s c) = 0
           then (case cpu_task (cpus s c) of
                   None \<Rightarrow> Inr s
                 | Some my_task \<Rightarrow>
                     if flags (tasks s my_task) AND TASK_FLAGS_RESCHEDULE \<noteq> 0
                     then bind_r (sched_enqueue c my_task
                                    (s\<lparr>tasks := (tasks s)(my_task := (tasks s my_task)
                                          \<lparr>flags := flags (tasks s my_task)
                                                      AND NOT TASK_FLAGS_RESCHEDULE\<rparr>)\<rparr>))
                            (sched_yield c)
                     else Inr s)
           else Inr s)"

definition sched_isr_exit :: "resumption \<Rightarrow> nat \<Rightarrow> u32 list \<Rightarrow> Sched \<Rightarrow> fault + nat \<times> Sched" where
  "sched_isr_exit resume c fr s =
     bind_r (sched_lock_acquire c fr s) (\<lambda>s.
       bind_r (sched_isr_exit_body c s) (\<lambda>s'.
         case after_switch resume c s s' of
           (c', s'') \<Rightarrow> bind_r (sched_unlock c' s'') (\<lambda>s. Inr (c', s))))"

definition task_cleanup :: "nat \<Rightarrow> Sched \<Rightarrow> Sched" where
  "task_cleanup task s =
     s\<lparr>tasks := (tasks s)(task := (tasks s task)
            \<lparr>timer_armed := False, state := TASK_STATE_DESTROYED\<rparr>)\<rparr>"

text \<open>
  \<open>task_create\<close>: \<open>new_task\<close> is what \<open>kmem_alloc\<close> returns and \<open>stack_page\<close> what
  \<open>page_alloc_one\<close> returns, \<open>NULL\<close> or an address. The new task is suspended, with
  no flag set and a timer that is not armed; the other fields it writes (entry point,
  argument, process, stack, context) are not part of the scheduler state.
\<close>

definition task_create :: "nat option \<Rightarrow> nat option \<Rightarrow> int \<Rightarrow> Sched \<Rightarrow> nat option \<times> Sched" where
  "task_create new_task stack_page priority' s =
     (case new_task of
        None \<Rightarrow> (None, s)
      | Some task \<Rightarrow>
          (case stack_page of
             None \<Rightarrow> (None, s)
           | Some pg \<Rightarrow>
               (Some task,
                s\<lparr>tasks := (tasks s)(task := (tasks s task)
                     \<lparr>flags := 0, priority := priority', state := TASK_STATE_SUSPENDED,
                      timer_remain := 0, timer_armed := False\<rparr>)\<rparr>)))"

subsection \<open>One turn of the wake-all loop\<close>

lemma sched_enqueue_held:
  "spin_holding (sched_lock s) c \<Longrightarrow>
   sched_enqueue c th s =
     Inr (s\<lparr>tasks := (tasks s)(th := (tasks s th)\<lparr>state := TASK_STATE_READY\<rparr>),
            sched_queue := (sched_queue s)
              (priority (tasks s th) := sched_queue s (priority (tasks s th)) @ [th])\<rparr>)"
  by (simp add: sched_enqueue_def)

lemma wakeup_all_body_result:
  assumes "spin_holding (sched_lock s) c" "wait_lists s q = x # xs"
  shows "\<exists>s'. wakeup_all_body c q r s = Inr s' \<and>
           sched_lock s' = sched_lock s \<and> cpus s' = cpus s \<and>
           wait_lists s' = (wait_lists s)(q := xs) \<and>
           sleep_result (tasks s' x) = r \<and> state (tasks s' x) = TASK_STATE_READY \<and>
           (\<forall>t. t \<noteq> x \<longrightarrow> sleep_result (tasks s' t) = sleep_result (tasks s t)) \<and>
           (\<forall>t. state (tasks s' t) = state (tasks s t) \<or> state (tasks s' t) = TASK_STATE_READY)"
proof -
  define s1 where "s1 = s\<lparr>wait_lists := (wait_lists s)(q := xs),
      tasks := (tasks s)(x := (tasks s x)\<lparr>sleep_result := r\<rparr>)\<rparr>"
  define s2 where "s2 = s1\<lparr>tasks := (tasks s1)(x := (tasks s1 x)\<lparr>state := TASK_STATE_READY\<rparr>),
      sched_queue := (sched_queue s1)
         (priority (tasks s1 x) := sched_queue s1 (priority (tasks s1 x)) @ [x])\<rparr>"
  have held1: "spin_holding (sched_lock s1) c" using assms(1) by (simp add: s1_def)
  have enq: "sched_enqueue c x s1 = Inr s2"
    using sched_enqueue_held[OF held1] by (simp add: s2_def)
  have held2: "spin_holding (sched_lock s2) c" using held1 by (simp add: s2_def)
  from sched_may_yield_frame[OF held2, of x] obtain s3 where
    my: "sched_may_yield c x s2 = Inr s3" and
    wl: "wait_lists s3 = wait_lists s2" and lk: "sched_lock s3 = sched_lock s2" and
    cp: "cpus s3 = cpus s2" and
    sr: "\<forall>t. sleep_result (tasks s3 t) = sleep_result (tasks s2 t)" and
    st: "\<forall>t. state (tasks s3 t) = state (tasks s2 t) \<or> state (tasks s3 t) = TASK_STATE_READY"
    by blast
  have res: "wakeup_all_body c q r s = Inr s3"
    using enq my assms(2) by (simp add: wakeup_all_body_def s1_def)
  have c1: "sched_lock s3 = sched_lock s" using lk by (simp add: s2_def s1_def)
  have c2: "cpus s3 = cpus s" using cp by (simp add: s2_def s1_def)
  have c3: "wait_lists s3 = (wait_lists s)(q := xs)" using wl by (simp add: s2_def s1_def)
  have c4: "sleep_result (tasks s3 x) = r" using sr by (simp add: s2_def s1_def)
  have c5: "state (tasks s3 x) = TASK_STATE_READY"
    using st[rule_format, of x] by (auto simp: s2_def s1_def)
  have c6: "\<forall>t. t \<noteq> x \<longrightarrow> sleep_result (tasks s3 t) = sleep_result (tasks s t)"
    using sr by (simp add: s2_def s1_def)
  have c7: "\<forall>t. state (tasks s3 t) = state (tasks s t) \<or> state (tasks s3 t) = TASK_STATE_READY"
  proof
    fix t
    have "state (tasks s2 t) = state (tasks s t) \<or> state (tasks s2 t) = TASK_STATE_READY"
      by (simp add: s2_def s1_def)
    then show "state (tasks s3 t) = state (tasks s t) \<or> state (tasks s3 t) = TASK_STATE_READY"
      using st[rule_format, of t] by auto
  qed
  show ?thesis by (intro exI[of _ s3] conjI res c1 c2 c3 c4 c5 c6 c7)
qed

lemma wakeup_all_body_holding:
  assumes "wakeup_all_body c q r s = Inr s'" "wait_lists s q = x # xs"
  shows "spin_holding (sched_lock s) c"
  using assms
  by (auto simp: wakeup_all_body_def sched_enqueue_def assert_sched_locked_def bind_r_def
      split: if_splits sum.splits)



subsection \<open>What the rest of the system does\<close>

text \<open>
  What the rest of the system can do to the scheduler state while the task \<open>me\<close> is
  switched out. A step is a stretch of a scheduler function that runs without a switch in
  between: a call of one of the functions that switch, if at all, as their last effect;
  or one turn of the loop of \<open>sched_wakeup_all\<close>; or what \<open>task_sleep_callback\<close> and
  \<open>sched_isr_exit\<close> do between taking and releasing the scheduler lock. The functions
  \<open>task_resume\<close>, \<open>task_yield\<close> and \<open>task_exit\<close> are sequences of such steps. Only
  \<open>sched_sleep_enter\<close> is restricted: the task that goes to sleep is the one running on
  the CPU, and that is not \<open>me\<close>.
\<close>

inductive env_step :: "nat \<Rightarrow> Sched \<Rightarrow> Sched \<Rightarrow> bool" for me :: nat where
  env_wakeup_all_body: "wakeup_all_body c q r s = Inr s' \<Longrightarrow> env_step me s s'"
| env_wakeup_one: "sched_wakeup_one c q r s = Inr s' \<Longrightarrow> env_step me s s'"
| env_timer: "task_sleep_callback_body c t s = Inr s' \<Longrightarrow> env_step me s s'"
| env_sleep_enter:
    "cpu_task (cpus s c) \<noteq> Some me \<Longrightarrow>
     sched_sleep_enter c fr queue timeout lock s = Inr (lock', s') \<Longrightarrow> env_step me s s'"
| env_sleep_return:
    "sched_sleep_return c fr t timeout lock s = Inr (r, lock', s') \<Longrightarrow> env_step me s s'"
| env_enqueue: "sched_enqueue c t s = Inr s' \<Longrightarrow> env_step me s s'"
| env_may_yield: "sched_may_yield c t s = Inr s' \<Longrightarrow> env_step me s s'"
| env_yield: "sched_yield c s = Inr s' \<Longrightarrow> env_step me s s'"
| env_lock: "sched_lock_acquire c fr s = Inr s' \<Longrightarrow> env_step me s s'"
| env_unlock: "sched_unlock c s = Inr s' \<Longrightarrow> env_step me s s'"
| env_dispatch: "sched_dispatch c fr n s = Inr s' \<Longrightarrow> env_step me s s'"
| env_return_to_loop: "sched_return_to_loop c fr t s = Inr s' \<Longrightarrow> env_step me s s'"
| env_isr_enter: "env_step me s (sched_isr_enter c s)"
| env_isr_exit: "sched_isr_exit_body c s = Inr s' \<Longrightarrow> env_step me s s'"
| env_task_cleanup: "env_step me s (task_cleanup t s)"
| env_task_create: "task_create new_task stack_page p s = (res, s') \<Longrightarrow> env_step me s s'"

text \<open>
  \<open>awake me s\<close>: the task is on no wait list and is not marked sleeping.
  \<open>kept me s s'\<close>: it still is in \<open>s'\<close>, with the sleep result it had in \<open>s\<close>.
\<close>

definition awake :: "nat \<Rightarrow> Sched \<Rightarrow> bool" where
  "awake me s = ((\<forall>q. me \<notin> set (wait_lists s q)) \<and> state (tasks s me) \<noteq> TASK_STATE_SLEEPING)"

definition kept :: "nat \<Rightarrow> Sched \<Rightarrow> Sched \<Rightarrow> bool" where
  "kept me s s' = (awake me s' \<and> sleep_result (tasks s' me) = sleep_result (tasks s me))"

lemma kept_trans: "kept me s s1 \<Longrightarrow> kept me s1 s2 \<Longrightarrow> kept me s s2"
  by (simp add: kept_def)

lemma kept_refl: "awake me s \<Longrightarrow> kept me s s"
  by (simp add: kept_def)

lemma kept_awake: "kept me s s' \<Longrightarrow> awake me s'"
  by (simp add: kept_def)

lemma kept_frame:
  assumes "awake me s"
      and "\<forall>q. set (wait_lists s' q) \<subseteq> set (wait_lists s q)"
      and "sleep_result (tasks s' me) = sleep_result (tasks s me)"
      and "state (tasks s' me) = state (tasks s me) \<or> state (tasks s' me) \<noteq> TASK_STATE_SLEEPING"
  shows "kept me s s'"
  using assms by (auto simp: kept_def awake_def)

lemma kept_enqueue:
  assumes "awake me s" "sched_enqueue c t s = Inr s'"
  shows "kept me s s'"
proof -
  have h: "spin_holding (sched_lock s) c"
    using assms(2) by (auto simp: sched_enqueue_def assert_sched_locked_def split: if_splits)
  have "s' = s\<lparr>tasks := (tasks s)(t := (tasks s t)\<lparr>state := TASK_STATE_READY\<rparr>),
            sched_queue := (sched_queue s)
              (priority (tasks s t) := sched_queue s (priority (tasks s t)) @ [t])\<rparr>"
    using assms(2) sched_enqueue_held[OF h, of t] by simp
  then show ?thesis
    using assms(1) by (cases "me = t") (simp_all add: kept_def awake_def)
qed

lemma kept_yield:
  assumes "awake me s" "sched_yield c s = Inr s'"
  shows "kept me s s'"
  using assms
  by (auto simp: sched_yield_def assert_sched_locked_def intro!: kept_frame split: if_splits)

lemma kept_may_yield:
  assumes "awake me s" "sched_may_yield c t s = Inr s'"
  shows "kept me s s'"
proof -
  have h: "spin_holding (sched_lock s) c"
    using assms(2) by (auto simp: sched_may_yield_def assert_sched_locked_def split: if_splits)
  from sched_may_yield_frame[OF h, of t] assms(2) have
    "wait_lists s' = wait_lists s"
    "\<forall>t. sleep_result (tasks s' t) = sleep_result (tasks s t)"
    "\<forall>t. state (tasks s' t) = state (tasks s t) \<or> state (tasks s' t) = TASK_STATE_READY"
    by auto
  then show ?thesis using assms(1) by (intro kept_frame) auto
qed

lemma kept_lock:
  assumes "awake me s" "sched_lock_acquire c fr s = Inr s'"
  shows "kept me s s'"
  using assms
  by (auto simp: sched_lock_acquire_def bind_r_def intro!: kept_frame split: sum.splits)

lemma kept_unlock:
  assumes "awake me s" "sched_unlock c s = Inr s'"
  shows "kept me s s'"
  using assms
  by (auto simp: sched_unlock_def bind_r_def intro!: kept_frame split: sum.splits)

lemma kept_wakeup_all_body:
  assumes "awake me s" "wakeup_all_body c q r s = Inr s'"
  shows "kept me s s'"
proof (cases "wait_lists s q")
  case Nil
  then show ?thesis using assms by (simp add: wakeup_all_body_def kept_def)
next
  case (Cons x xs)
  have h: "spin_holding (sched_lock s) c" using wakeup_all_body_holding[OF assms(2) Cons] .
  have "me \<notin> set (wait_lists s q)" using assms(1) by (simp add: awake_def)
  then have ne: "x \<noteq> me" using Cons by auto
  from wakeup_all_body_result[OF h Cons, of r] assms(2) have
    "wait_lists s' = (wait_lists s)(q := xs)"
    "\<forall>t. t \<noteq> x \<longrightarrow> sleep_result (tasks s' t) = sleep_result (tasks s t)"
    "\<forall>t. state (tasks s' t) = state (tasks s t) \<or> state (tasks s' t) = TASK_STATE_READY"
    by auto
  then show ?thesis using assms(1) ne Cons by (intro kept_frame) auto
qed

lemma highest_scan_mem:
  "highest_scan ts xs ho = Some h \<Longrightarrow> h \<in> set xs \<or> ho = Some h"
  by (induction xs arbitrary: ho) (auto split: option.splits if_splits)

lemma kept_wakeup_one:
  assumes "awake me s" "sched_wakeup_one c q r s = Inr s'"
  shows "kept me s s'"
proof (cases "highest_scan (tasks s) (wait_lists s q) None")
  case None
  then show ?thesis using assms
    by (auto simp: sched_wakeup_one_def kept_def split: if_splits)
next
  case (Some h)
  have h: "spin_holding (sched_lock s) c"
    using assms(2) by (auto simp: sched_wakeup_one_def split: if_splits)
  have hin: "h \<in> set (wait_lists s q)" using highest_scan_mem[OF Some] by simp
  then have hne: "h \<noteq> me" using assms(1) by (auto simp: awake_def)
  define s1 where "s1 = s\<lparr>wait_lists := (wait_lists s)(q := remove1 h (wait_lists s q)),
      tasks := (tasks s)(h := (tasks s h)\<lparr>sleep_result := r\<rparr>)\<rparr>"
  have a1: "kept me s s1"
    using assms(1) hne set_remove1_subset[of h "wait_lists s q"]
    by (intro kept_frame) (auto simp: s1_def)
  from assms(2) Some h obtain s2 where
    e: "sched_enqueue c h s1 = Inr s2" and m: "sched_may_yield c h s2 = Inr s'"
    by (auto simp: sched_wakeup_one_def s1_def bind_r_def split: sum.splits)
  have a2: "kept me s1 s2" using kept_enqueue[OF _ e] a1 by (simp add: kept_def)
  have a3: "kept me s2 s'" using kept_may_yield[OF _ m] a2 by (simp add: kept_def)
  show ?thesis using a1 a2 a3 kept_trans by blast
qed

lemma kept_timer:
  assumes "awake me s" "task_sleep_callback_body c t s = Inr s'"
  shows "kept me s s'"
proof (cases "state (tasks s t) = TASK_STATE_SLEEPING")
  case False
  then show ?thesis using assms by (simp add: task_sleep_callback_body_def kept_def)
next
  case True
  then have ne: "t \<noteq> me" using assms(1) by (auto simp: awake_def)
  define sa where "sa = s\<lparr>tasks := (tasks s)(t := (tasks s t)\<lparr>sleep_result := - ETIMEDOUT\<rparr>),
                  wait_lists := (\<lambda>q. remove1 t (wait_lists s q))\<rparr>"
  have ka: "kept me s sa"
  proof (rule kept_frame[OF assms(1)])
    show "\<forall>q. set (wait_lists sa q) \<subseteq> set (wait_lists s q)"
      by (simp add: sa_def set_remove1_subset)
  qed (use ne in \<open>simp_all add: sa_def\<close>)
  from assms(2) True obtain sb where
    e: "sched_enqueue c t sa = Inr sb" and m: "sched_may_yield c t sb = Inr s'"
    by (auto simp: task_sleep_callback_body_def sa_def bind_r_def split: sum.splits)
  have kb: "kept me sa sb" using kept_enqueue[OF kept_awake[OF ka] e] .
  have kc: "kept me sb s'" using kept_may_yield[OF kept_awake[OF kb] m] .
  show ?thesis using ka kb kc kept_trans by blast
qed

lemma kept_sleep_enter:
  assumes "awake me s" "cpu_task (cpus s c) \<noteq> Some me"
      and "sched_sleep_enter c fr queue timeout lock s = Inr (lock', s')"
  shows "kept me s s'"
proof -
  from assms(3) obtain lk s1 where
    f: "(case lock of
           None \<Rightarrow> Inr (None, s)
         | Some l \<Rightarrow>
             (case sched_lock_acquire c fr s of
                Inl e \<Rightarrow> Inl (e, Some l, s)
              | Inr s \<Rightarrow>
                  (case spin_unlock c l of
                     Inl e \<Rightarrow> Inl (e, Some l, s)
                   | Inr l \<Rightarrow> Inr (Some l, s)))) = Inr (lk, s1)"
    unfolding sched_sleep_enter_def by (auto split: sum.splits)
  have k1: "kept me s s1"
  proof (cases lock)
    case None
    then show ?thesis using f kept_refl[OF assms(1)] by simp
  next
    case (Some l)
    then obtain sx where "sched_lock_acquire c fr s = Inr sx" "s1 = sx"
      using f by (auto split: sum.splits)
    then show ?thesis using kept_lock[OF assms(1)] by simp
  qed
  have cp: "cpus s1 = cpus s"
    using f by (auto simp: sched_lock_acquire_def bind_r_def split: option.splits sum.splits)
  from assms(3) f obtain a where a: "cpu_task (cpus s1 c) = Some a"
    unfolding sched_sleep_enter_def
    by (cases "cpu_task (cpus s1 c)")
       (auto simp: assert_sched_locked_def split: sum.splits if_splits)
  have ne: "a \<noteq> me" using assms(2) a cp by simp
  define sa where "sa = s1\<lparr>tasks := (tasks s1)(a :=
                          (if timeout \<noteq> 0
                           then (tasks s1 a)\<lparr>timer_remain := timeout, timer_armed := True\<rparr>
                           else tasks s1 a)\<lparr>state := TASK_STATE_SLEEPING\<rparr>),
                       wait_lists :=
                          (case queue of
                             None \<Rightarrow> wait_lists s1
                           | Some q \<Rightarrow> (wait_lists s1)(q := wait_lists s1 q @ [a]))\<rparr>"
  have ka: "kept me s1 sa"
    using kept_awake[OF k1] ne
    by (auto simp: kept_def awake_def sa_def split: option.splits)
  from assms(3) f a have y: "sched_yield c sa = Inr s'"
    unfolding sched_sleep_enter_def sa_def
    by (auto simp: assert_sched_locked_def split: sum.splits if_splits)
  have kb: "kept me sa s'" using kept_yield[OF kept_awake[OF ka] y] .
  show ?thesis using k1 ka kb kept_trans by blast
qed

lemma kept_sleep_return:
  assumes "awake me s" "sched_sleep_return c fr t timeout lock s = Inr (r, lock', s')"
  shows "kept me s s'"
proof -
  define sa where "sa = (if timeout \<noteq> 0
      then s\<lparr>tasks := (tasks s)(t := (tasks s t)\<lparr>timer_armed := False\<rparr>)\<rparr> else s)"
  have ka: "kept me s sa"
    using assms(1) by (auto simp: kept_def awake_def sa_def)
  show ?thesis
  proof (cases lock)
    case None
    then have "s' = sa" using assms(2) by (auto simp: sched_sleep_return_def sa_def)
    then show ?thesis using ka by simp
  next
    case (Some l)
    then obtain sb where u: "sched_unlock c sa = Inr sb" and "s' = sb"
      using assms(2)
      by (auto simp: sched_sleep_return_def sa_def bind_r_def split: sum.splits if_splits)
    then show ?thesis using kept_unlock[OF kept_awake[OF ka] u] ka kept_trans by blast
  qed
qed

lemma kept_dispatch:
  assumes "awake me s" "sched_dispatch c fr n s = Inr s'"
  shows "kept me s s'"
proof (cases "sched_dequeue_from (sched_queue s) 0 n")
  case None
  then obtain s1 where u: "sched_unlock c s = Inr s1" and l: "sched_lock_acquire c fr s1 = Inr s'"
    using assms(2)
    by (cases "sched_unlock c s")
       (auto simp: sched_dispatch_def assert_sched_locked_def split: if_splits)
  have k1: "kept me s s1" using kept_unlock[OF assms(1) u] .
  have k2: "kept me s1 s'" using kept_lock[OF kept_awake[OF k1] l] .
  show ?thesis using k1 k2 by (rule kept_trans)
next
  case (Some a)
  then show ?thesis using assms
    by (auto simp: sched_dispatch_def assert_sched_locked_def kept_def awake_def
        split: if_splits prod.splits)
qed

lemma kept_return_to_loop:
  assumes "awake me s" "sched_return_to_loop c fr t s = Inr s'"
  shows "kept me s s'"
proof -
  define sa where "sa = s\<lparr>cpus := (cpus s)(c := (cpus s c)\<lparr>cpu_task := None\<rparr>)\<rparr>"
  have ka: "kept me s sa" using assms(1) by (simp add: kept_def awake_def sa_def)
  show ?thesis
  proof (cases "state (tasks sa t) = TASK_STATE_DESTROYED")
    case False
    then have "s' = sa" using assms(2) by (simp add: sched_return_to_loop_def sa_def Let_def)
    then show ?thesis using ka by simp
  next
    case True
    define sb where "sb = sa\<lparr>tasks := (tasks sa)(t := (tasks sa t)\<lparr>state := TASK_STATE_NONE\<rparr>)\<rparr>"
    have kb: "kept me sa sb"
      using kept_awake[OF ka] by (auto simp: kept_def awake_def sb_def)
    from assms(2) True obtain sc where
      u: "sched_unlock c sb = Inr sc" and l: "sched_lock_acquire c fr sc = Inr s'"
      by (auto simp: sched_return_to_loop_def Let_def sa_def sb_def bind_r_def split: sum.splits)
    have kc: "kept me sb sc" using kept_unlock[OF kept_awake[OF kb] u] .
    have kd: "kept me sc s'" using kept_lock[OF kept_awake[OF kc] l] .
    show ?thesis using ka kb kc kd kept_trans by blast
  qed
qed

lemma kept_isr_enter: "awake me s \<Longrightarrow> kept me s (sched_isr_enter c s)"
  by (simp add: kept_def awake_def sched_isr_enter_def)

lemma kept_task_cleanup: "awake me s \<Longrightarrow> kept me s (task_cleanup t s)"
  by (simp add: kept_def awake_def task_cleanup_def)

lemma kept_task_create:
  assumes "awake me s" "task_create new_task stack_page p s = (res, s')"
  shows "kept me s s'"
  using assms
  by (auto simp: task_create_def kept_def awake_def split: option.splits if_splits)

lemma kept_isr_exit:
  assumes "awake me s" "sched_isr_exit_body c s = Inr s'"
  shows "kept me s s'"
proof -
  define sa where "sa = s\<lparr>cpus := (cpus s)(c := (cpus s c)
                     \<lparr>isr_nesting := isr_nesting (cpus s c) - 1\<rparr>)\<rparr>"
  have ka: "kept me s sa" using assms(1) by (simp add: kept_def awake_def sa_def)
  define inner where "inner =
        (if isr_nesting (cpus sa c) = 0
         then (case cpu_task (cpus sa c) of
                 None \<Rightarrow> Inr sa
               | Some my_task \<Rightarrow>
                   if flags (tasks sa my_task) AND TASK_FLAGS_RESCHEDULE \<noteq> 0
                   then bind_r (sched_enqueue c my_task
                                  (sa\<lparr>tasks := (tasks sa)(my_task := (tasks sa my_task)
                                        \<lparr>flags := flags (tasks sa my_task)
                                                    AND NOT TASK_FLAGS_RESCHEDULE\<rparr>)\<rparr>))
                          (sched_yield c)
                   else Inr sa)
         else Inr sa)"
  have eq: "sched_isr_exit_body c s =
      (if isr_nesting (cpus s c) \<le> 0 then Inl (Panic [] ''isr_nesting <= 0'') else inner)"
    unfolding sched_isr_exit_body_def inner_def sa_def Let_def by simp
  from assms(2) eq have b: "inner = Inr s'"
    by (auto split: if_splits)
  show ?thesis
  proof (cases "isr_nesting (cpus sa c) = 0 \<and> (\<exists>t. cpu_task (cpus sa c) = Some t \<and>
                  flags (tasks sa t) AND TASK_FLAGS_RESCHEDULE \<noteq> 0)")
    case False
    then have "s' = sa" using b by (auto simp: inner_def split: if_splits option.splits)
    then show ?thesis using ka by simp
  next
    case True
    then obtain t where t: "cpu_task (cpus sa c) = Some t"
      "flags (tasks sa t) AND TASK_FLAGS_RESCHEDULE \<noteq> 0" "isr_nesting (cpus sa c) = 0"
      by blast
    define sf where "sf = sa\<lparr>tasks := (tasks sa)(t := (tasks sa t)
                 \<lparr>flags := flags (tasks sa t) AND NOT TASK_FLAGS_RESCHEDULE\<rparr>)\<rparr>"
    have kf: "kept me sa sf" using kept_awake[OF ka] by (auto simp: kept_def awake_def sf_def)
    from b t obtain se where e: "sched_enqueue c t sf = Inr se" and y: "sched_yield c se = Inr s'"
      by (cases "sched_enqueue c t sf") (auto simp: inner_def sf_def)
    have ke: "kept me sf se" using kept_enqueue[OF kept_awake[OF kf] e] .
    have ky: "kept me se s'" using kept_yield[OF kept_awake[OF ke] y] .
    show ?thesis using ka kf ke ky kept_trans by blast
  qed
qed

lemma env_step_kept:
  assumes "env_step me s s'" "awake me s"
  shows "kept me s s'"
  using assms
proof (cases rule: env_step.cases)
  case (env_wakeup_all_body c q r)
  then show ?thesis using kept_wakeup_all_body assms(2) by blast
next
  case (env_wakeup_one c q r)
  then show ?thesis using kept_wakeup_one assms(2) by blast
next
  case (env_timer c t)
  then show ?thesis using kept_timer assms(2) by blast
next
  case (env_sleep_enter c fr queue timeout lock lock')
  then show ?thesis using kept_sleep_enter assms(2) by blast
next
  case (env_sleep_return c fr t timeout lock r lock')
  then show ?thesis using kept_sleep_return assms(2) by blast
next
  case (env_enqueue c t)
  then show ?thesis using kept_enqueue assms(2) by blast
next
  case (env_may_yield c t)
  then show ?thesis using kept_may_yield assms(2) by blast
next
  case (env_yield c)
  then show ?thesis using kept_yield assms(2) by blast
next
  case (env_lock c fr)
  then show ?thesis using kept_lock assms(2) by blast
next
  case (env_unlock c)
  then show ?thesis using kept_unlock assms(2) by blast
next
  case (env_dispatch c fr n)
  then show ?thesis using kept_dispatch assms(2) by blast
next
  case (env_return_to_loop c fr t)
  then show ?thesis using kept_return_to_loop assms(2) by blast
next
  case (env_isr_enter c)
  then show ?thesis using kept_isr_enter assms(2) by blast
next
  case (env_isr_exit c)
  then show ?thesis using kept_isr_exit assms(2) by blast
next
  case (env_task_cleanup t)
  then show ?thesis using kept_task_cleanup assms(2) by blast
next
  case (env_task_create new_task stack_page p res)
  then show ?thesis using kept_task_create assms(2) by blast
qed

lemma env_steps_kept:
  assumes "(env_step me)\<^sup>*\<^sup>* s s'" "awake me s"
  shows "kept me s s'"
  using assms
proof (induction rule: rtranclp_induct)
  case base
  then show ?case by (rule kept_refl)
next
  case (step y z)
  then have "kept me s y" by simp
  moreover have "kept me y z" using env_step_kept[OF step.hyps(2)] kept_awake calculation by blast
  ultimately show ?case by (rule kept_trans)
qed

subsection \<open>The functions that go on after a switch\<close>

text \<open>
  When what happens while a caller is switched out is made of steps of the rest of the
  system, so is a whole call of \<open>sched_wakeup_all\<close>, \<open>task_sleep_callback\<close> or
  \<open>sched_isr_exit\<close> that returns.
\<close>

lemma after_switch_env:
  assumes "\<forall>s. (env_step me)\<^sup>*\<^sup>* s (snd (resume s))"
      and "after_switch resume c s s' = (c', s'')"
  shows "(env_step me)\<^sup>*\<^sup>* s' s''"
proof (cases "switches s' = switches s")
  case True
  then show ?thesis using assms(2) by (simp add: after_switch_def)
next
  case False
  then have "s'' = snd (resume s')" using assms(2) by (simp add: after_switch_def)
  then show ?thesis using assms(1) by simp
qed

lemma wakeup_all_loop_env:
  assumes env: "\<forall>s. (env_step me)\<^sup>*\<^sup>* s (snd (resume s))"
      and run: "wakeup_all_loop resume c q r s = Some (Inr (c', s'))"
  shows "(env_step me)\<^sup>*\<^sup>* s s'"
proof -
  have "resume = resume \<longrightarrow>
          (\<forall>c1 s1. (Inr (c', s') :: fault + nat \<times> Sched) = Inr (c1, s1) \<longrightarrow>
             (env_step me)\<^sup>*\<^sup>* s s1)"
  proof (rule wakeup_all_loop.raw_induct
      [where P = "\<lambda>res c q r s y. res = resume \<longrightarrow>
                    (\<forall>c1 s1. y = Inr (c1, s1) \<longrightarrow> (env_step me)\<^sup>*\<^sup>* s s1)", OF _ run])
    fix f :: "resumption \<Rightarrow> nat \<Rightarrow> nat \<Rightarrow> int \<Rightarrow> Sched \<Rightarrow> (fault + nat \<times> Sched) option"
    fix res c q r s y
    assume IH: "\<And>res c q r s y. f res c q r s = Some y \<Longrightarrow>
                  res = resume \<longrightarrow> (\<forall>c1 s1. y = Inr (c1, s1) \<longrightarrow> (env_step me)\<^sup>*\<^sup>* s s1)"
    assume body: "(case wait_lists s q of
                     [] \<Rightarrow> Some (Inr (c, s))
                   | task # rest \<Rightarrow>
                       (case wakeup_all_body c q r s of
                          Inl e \<Rightarrow> Some (Inl e)
                        | Inr s' \<Rightarrow>
                            (case after_switch res c s s' of
                               (c', s'') \<Rightarrow> f res c' q r s''))) = Some y"
    show "res = resume \<longrightarrow> (\<forall>c1 s1. y = Inr (c1, s1) \<longrightarrow> (env_step me)\<^sup>*\<^sup>* s s1)"
    proof (intro impI allI)
      fix c1 s1
      assume res: "res = resume" and y: "y = Inr (c1, s1)"
      show "(env_step me)\<^sup>*\<^sup>* s s1"
      proof (cases "wait_lists s q")
        case Nil
        then show ?thesis using body y by simp
      next
        case (Cons x xs)
        show ?thesis
        proof (cases "wakeup_all_body c q r s")
          case (Inl e)
          then show ?thesis using body y Cons by simp
        next
          case (Inr sa)
          obtain c2 sb where sw: "after_switch res c s sa = (c2, sb)"
            by (cases "after_switch res c s sa")
          have rec: "f res c2 q r sb = Some y" using body Cons Inr sw by simp
          have a: "env_step me s sa" using Inr by (rule env_wakeup_all_body)
          have b: "(env_step me)\<^sup>*\<^sup>* sa sb" using after_switch_env[OF env] sw res by blast
          have c: "(env_step me)\<^sup>*\<^sup>* sb s1" using IH[OF rec] res y by blast
          show ?thesis using a b c by (meson converse_rtranclp_into_rtranclp rtranclp_trans)
        qed
      qed
    qed
  qed
  then show ?thesis by simp
qed

lemma task_sleep_callback_env:
  assumes env: "\<forall>s. (env_step me)\<^sup>*\<^sup>* s (snd (resume s))"
      and run: "task_sleep_callback resume c fr t s = Inr (c', s')"
  shows "(env_step me)\<^sup>*\<^sup>* s s'"
proof -
  from run obtain s1 s2 where
    l: "sched_lock_acquire c fr s = Inr s1" and b: "task_sleep_callback_body c t s1 = Inr s2"
    by (auto simp: task_sleep_callback_def bind_r_def split: sum.splits)
  obtain c3 s3 where sw: "after_switch resume c s1 s2 = (c3, s3)"
    by (cases "after_switch resume c s1 s2")
  from run l b sw have u: "sched_unlock c3 s3 = Inr s'"
    by (auto simp: task_sleep_callback_def bind_r_def split: sum.splits)
  have "env_step me s s1" using l by (rule env_lock)
  moreover have "env_step me s1 s2" using b by (rule env_timer)
  moreover have "(env_step me)\<^sup>*\<^sup>* s2 s3" using after_switch_env[OF env sw] .
  moreover have "env_step me s3 s'" using u by (rule env_unlock)
  ultimately show ?thesis
    by (meson converse_rtranclp_into_rtranclp rtranclp.rtrancl_into_rtrancl)
qed

lemma sched_isr_exit_env:
  assumes env: "\<forall>s. (env_step me)\<^sup>*\<^sup>* s (snd (resume s))"
      and run: "sched_isr_exit resume c fr s = Inr (c', s')"
  shows "(env_step me)\<^sup>*\<^sup>* s s'"
proof -
  from run obtain s1 s2 where
    l: "sched_lock_acquire c fr s = Inr s1" and b: "sched_isr_exit_body c s1 = Inr s2"
    by (auto simp: sched_isr_exit_def bind_r_def split: sum.splits)
  obtain c3 s3 where sw: "after_switch resume c s1 s2 = (c3, s3)"
    by (cases "after_switch resume c s1 s2")
  from run l b sw have u: "sched_unlock c3 s3 = Inr s'"
    by (auto simp: sched_isr_exit_def bind_r_def split: sum.splits)
  have "env_step me s s1" using l by (rule env_lock)
  moreover have "env_step me s1 s2" using b by (rule env_isr_exit)
  moreover have "(env_step me)\<^sup>*\<^sup>* s2 s3" using after_switch_env[OF env sw] .
  moreover have "env_step me s3 s'" using u by (rule env_unlock)
  ultimately show ?thesis
    by (meson converse_rtranclp_into_rtranclp rtranclp.rtrancl_into_rtrancl)
qed

subsection \<open>A whole call of the wake-all\<close>

text \<open>
  \<open>asleep_on me q s\<close>: the task is linked on the wait list \<open>q\<close>, once, and on no
  other. \<open>woken me r s\<close>: it is awake with the sleep result \<open>r\<close>.
\<close>

definition asleep_on :: "nat \<Rightarrow> nat \<Rightarrow> Sched \<Rightarrow> bool" where
  "asleep_on me q s =
     (me \<in> set (wait_lists s q) \<and> distinct (wait_lists s q) \<and>
      (\<forall>q'. q' \<noteq> q \<longrightarrow> me \<notin> set (wait_lists s q')))"

definition woken :: "nat \<Rightarrow> int \<Rightarrow> Sched \<Rightarrow> bool" where
  "woken me r s = (awake me s \<and> sleep_result (tasks s me) = r)"

lemma woken_kept: "woken me r s \<Longrightarrow> kept me s s' \<Longrightarrow> woken me r s'"
  by (simp add: woken_def kept_def)

lemma woken_env: "woken me r s \<Longrightarrow> (env_step me)\<^sup>*\<^sup>* s s' \<Longrightarrow> woken me r s'"
  using env_steps_kept woken_kept by (metis woken_def)

lemma wakeup_all_body_turn:
  assumes "asleep_on me q s" "wakeup_all_body c q r s = Inr s'"
  shows "asleep_on me q s' \<or> woken me r s'"
proof -
  from assms(1) obtain x xs where l: "wait_lists s q = x # xs"
    by (cases "wait_lists s q") (auto simp: asleep_on_def)
  have h: "spin_holding (sched_lock s) c" using wakeup_all_body_holding[OF assms(2) l] .
  from wakeup_all_body_result[OF h l, of r] assms(2) have
    wl: "wait_lists s' = (wait_lists s)(q := xs)" and
    sr: "sleep_result (tasks s' x) = r" and st: "state (tasks s' x) = TASK_STATE_READY"
    by auto
  show ?thesis
  proof (cases "x = me")
    case True
    have "me \<notin> set xs" using assms(1) l True by (auto simp: asleep_on_def)
    then have "\<forall>q'. me \<notin> set (wait_lists s' q')"
      using assms(1) wl by (auto simp: asleep_on_def)
    then show ?thesis using sr st True by (simp add: woken_def awake_def)
  next
    case False
    then have "me \<in> set xs" "distinct xs" using assms(1) l by (auto simp: asleep_on_def)
    then have "asleep_on me q s'" using assms(1) wl by (auto simp: asleep_on_def)
    then show ?thesis by simp
  qed
qed

text \<open>
  A call of \<open>sched_wakeup_all\<close> on \<open>q\<close> with result \<open>r\<close> that returns leaves a task
  that was asleep on \<open>q\<close> at the call awake with the sleep result \<open>r\<close>, provided that
  while the caller is switched out nothing else takes the task off the list.
\<close>

lemma wakeup_all_loop_wakes:
  assumes stay: "\<forall>s. asleep_on me q s \<longrightarrow> asleep_on me q (snd (resume s))"
      and env: "\<forall>s. (env_step me)\<^sup>*\<^sup>* s (snd (resume s))"
      and run: "wakeup_all_loop resume c q r s = Some (Inr (c', s'))"
      and start: "asleep_on me q s \<or> woken me r s"
  shows "woken me r s'"
proof -
  have "resume = resume \<and> q = q \<and> r = r \<longrightarrow> asleep_on me q s \<or> woken me r s \<longrightarrow>
          (\<forall>c1 s1. (Inr (c', s') :: fault + nat \<times> Sched) = Inr (c1, s1) \<longrightarrow> woken me r s1)"
  proof (rule wakeup_all_loop.raw_induct
      [where P = "\<lambda>res c q0 r0 s y. res = resume \<and> q0 = q \<and> r0 = r \<longrightarrow>
                    asleep_on me q s \<or> woken me r s \<longrightarrow>
                    (\<forall>c1 s1. y = Inr (c1, s1) \<longrightarrow> woken me r s1)", OF _ run])
    fix f :: "resumption \<Rightarrow> nat \<Rightarrow> nat \<Rightarrow> int \<Rightarrow> Sched \<Rightarrow> (fault + nat \<times> Sched) option"
    fix res c q0 r0 s y
    assume IH: "\<And>res c q0 r0 s y. f res c q0 r0 s = Some y \<Longrightarrow>
                  res = resume \<and> q0 = q \<and> r0 = r \<longrightarrow>
                  asleep_on me q s \<or> woken me r s \<longrightarrow>
                  (\<forall>c1 s1. y = Inr (c1, s1) \<longrightarrow> woken me r s1)"
    assume body: "(case wait_lists s q0 of
                     [] \<Rightarrow> Some (Inr (c, s))
                   | task # rest \<Rightarrow>
                       (case wakeup_all_body c q0 r0 s of
                          Inl e \<Rightarrow> Some (Inl e)
                        | Inr s' \<Rightarrow>
                            (case after_switch res c s s' of
                               (c', s'') \<Rightarrow> f res c' q0 r0 s''))) = Some y"
    show "res = resume \<and> q0 = q \<and> r0 = r \<longrightarrow>
            asleep_on me q s \<or> woken me r s \<longrightarrow>
            (\<forall>c1 s1. y = Inr (c1, s1) \<longrightarrow> woken me r s1)"
    proof (intro impI allI)
      fix c1 s1
      assume eqs: "res = resume \<and> q0 = q \<and> r0 = r"
         and inv: "asleep_on me q s \<or> woken me r s" and y: "y = Inr (c1, s1)"
      show "woken me r s1"
      proof (cases "wait_lists s q")
        case Nil
        then have "\<not> asleep_on me q s" by (simp add: asleep_on_def)
        then show ?thesis using inv body y Nil eqs by simp
      next
        case (Cons x xs)
        show ?thesis
        proof (cases "wakeup_all_body c q r s")
          case (Inl e)
          then show ?thesis using body y Cons eqs by simp
        next
          case (Inr sa)
          obtain c2 sb where sw: "after_switch resume c s sa = (c2, sb)"
            by (cases "after_switch resume c s sa")
          have rec: "f res c2 q0 r0 sb = Some y" using body Cons Inr sw eqs by simp
          have inv_a: "asleep_on me q sa \<or> woken me r sa"
          proof (cases "asleep_on me q s")
            case True
            then show ?thesis using wakeup_all_body_turn[OF True Inr] by simp
          next
            case False
            then have w: "woken me r s" using inv by simp
            then have "kept me s sa" using kept_wakeup_all_body[OF _ Inr] by (simp add: woken_def)
            then show ?thesis using woken_kept[OF w] by simp
          qed
          have inv_b: "asleep_on me q sb \<or> woken me r sb"
          proof (cases "switches sa = switches s")
            case True
            then show ?thesis using sw inv_a by (simp add: after_switch_def)
          next
            case False
            then have sb: "sb = snd (resume sa)" using sw by (simp add: after_switch_def)
            show ?thesis
            proof (cases "asleep_on me q sa")
              case True
              then show ?thesis using stay sb by simp
            next
              case False
              then have "woken me r sa" using inv_a by simp
              then show ?thesis using woken_env env sb by blast
            qed
          qed
          show ?thesis using IH[OF rec] eqs inv_b y by blast
        qed
      qed
    qed
  qed
  then show ?thesis using start by simp
qed

lemma sched_wakeup_all_wakes:
  assumes "\<forall>s. asleep_on me q s \<longrightarrow> asleep_on me q (snd (resume s))"
      and "\<forall>s. (env_step me)\<^sup>*\<^sup>* s (snd (resume s))"
      and "sched_wakeup_all resume c q r s = Some (Inr (c', s'))"
      and "asleep_on me q s"
  shows "awake me s' \<and> sleep_result (tasks s' me) = r"
proof -
  have "wakeup_all_loop resume c q r s = Some (Inr (c', s'))"
    using assms(3) by (auto simp: sched_wakeup_all_def split: if_splits)
  from wakeup_all_loop_wakes[OF assms(1,2) this] assms(4) show ?thesis
    by (simp add: woken_def)
qed

subsection \<open>The two parts of \<open>sched_sleep\<close>\<close>





















end
